theory Spec2Isabelle
  imports Main "HOL-Library.Sublist"
begin

section \<open>Python strings\<close>

text \<open>
  A Python \<open>str\<close> is a sequence of Unicode code points; it is modelled as a list of
  integers, one per code point.  \<open>str\<close> turns an Isabelle literal into such a list.
\<close>

type_synonym pystr = "int list"

definition str :: "string \<Rightarrow> pystr" where
  "str s = map of_char s"

text \<open>
  The code points that \<open>str.strip()\<close> removes and that the regular-expression class
  \<open>\s\<close> matches on a \<open>str\<close> pattern: both use the interpreter's one whitespace test
  (U+0009..U+000D, U+001C..U+0020, U+0085, U+00A0, U+1680, U+2000..U+200A, U+2028, U+2029,
  U+202F, U+205F, U+3000).
\<close>

definition isspace :: "int \<Rightarrow> bool" where
  "isspace c \<longleftrightarrow>
     (9 \<le> c \<and> c \<le> 13) \<or> (28 \<le> c \<and> c \<le> 32) \<or> c = 133 \<or> c = 160 \<or> c = 5760 \<or>
     (8192 \<le> c \<and> c \<le> 8202) \<or> c = 8232 \<or> c = 8233 \<or> c = 8239 \<or> c = 8287 \<or> c = 12288"

text \<open>\<open>s.strip()\<close>: leading and trailing whitespace removed.\<close>

definition strip :: "pystr \<Rightarrow> pystr" where
  "strip s = rev (dropWhile isspace (rev (dropWhile isspace s)))"

text \<open>Offset of the first occurrence of \<open>sub\<close> in \<open>s\<close>, if there is one.\<close>

fun find_sub :: "pystr \<Rightarrow> pystr \<Rightarrow> nat option" where
  "find_sub sub [] = (if sub = [] then Some 0 else None)"
| "find_sub sub (c # cs) =
     (if prefix sub (c # cs) then Some 0 else map_option Suc (find_sub sub cs))"

text \<open>\<open>sub in s\<close>.\<close>

definition py_in :: "pystr \<Rightarrow> pystr \<Rightarrow> bool" where
  "py_in sub s \<longleftrightarrow> find_sub sub s \<noteq> None"

text \<open>\<open>s.find(sub, start)\<close> for \<open>0 \<le> start \<le> len(s)\<close>: the lowest index, or \<open>-1\<close>.\<close>

definition py_find :: "pystr \<Rightarrow> pystr \<Rightarrow> nat \<Rightarrow> int" where
  "py_find s sub start =
     (case find_sub sub (drop start s) of None \<Rightarrow> - 1 | Some j \<Rightarrow> int (start + j))"

text \<open>\<open>s[a:b]\<close> for \<open>0 \<le> a\<close> and \<open>0 \<le> b\<close>.\<close>

definition py_slice :: "pystr \<Rightarrow> int \<Rightarrow> int \<Rightarrow> pystr" where
  "py_slice s a b = take (nat (b - a)) (drop (nat a) s)"

text \<open>
  \<open>re.findall(r'https://github\.com/[^\s\)]+', content)\<close>: the scan goes from left to
  right; at a position where the literal prefix is followed by at least one character that
  is neither whitespace nor a closing parenthesis, the greedy class takes all such
  characters, the match is recorded, and the scan resumes where the match ended.
\<close>

definition github_prefix :: pystr where
  "github_prefix = str ''https://github.com/''"

definition url_char :: "int \<Rightarrow> bool" where
  "url_char c \<longleftrightarrow> \<not> isspace c \<and> c \<noteq> of_char CHR '')''"

function findall_github :: "pystr \<Rightarrow> pystr list" where
  "findall_github [] = []"
| "findall_github (c # cs) =
     (if prefix github_prefix (c # cs) \<and>
         takeWhile url_char (drop (length github_prefix) (c # cs)) \<noteq> []
      then (github_prefix @ takeWhile url_char (drop (length github_prefix) (c # cs)))
             # findall_github (dropWhile url_char (drop (length github_prefix) (c # cs)))
      else findall_github cs)"
  by pat_completeness auto
termination
proof (relation "measure length")
  show "wf (measure length)" by simp
next
  fix c :: int and cs :: pystr
  have "length (dropWhile url_char (drop (length github_prefix) (c # cs)))
          \<le> length (drop (length github_prefix) (c # cs))"
    by (rule length_dropWhile_le)
  moreover have "length (drop (length github_prefix) (c # cs))
          = length (c # cs) - length github_prefix"
    by (rule length_drop)
  moreover have "0 < length github_prefix"
    by (simp add: github_prefix_def str_def)
  ultimately have "length (dropWhile url_char (drop (length github_prefix) (c # cs)))
          < length (c # cs)"
    by (cases "length github_prefix") (simp_all del: length_drop length_0_conv)
  then show "(dropWhile url_char (drop (length github_prefix) (c # cs)), c # cs)
          \<in> measure length"
    by simp
next
  fix c :: int and cs :: pystr
  show "(cs, c # cs) \<in> measure length" by simp
qed

section \<open>Data model\<close>

text \<open>
  A task as the board returns it.  \<open>None\<close> stands for a key that is absent or \<open>null\<close>.
\<close>

record task =
  task_id :: pystr
  task_title :: "pystr option"
  task_content :: "pystr option"
  task_project_id :: pystr

text \<open>An issue as the \<open>gh\<close> tool lists it: \<open>number,title,body,url\<close>, the body nullable.\<close>

record issue =
  issue_number :: int
  issue_title :: pystr
  issue_body :: "pystr option"
  issue_url :: pystr

text \<open>
  A Python \<open>set\<close> of strings, kept as the list of its members; \<open>set_add\<close> is
  \<open>s.add(x)\<close>, which leaves a set that already holds \<open>x\<close> as it is.
\<close>

type_synonym pyset = "pystr list"

definition set_add :: "pystr \<Rightarrow> pyset \<Rightarrow> pyset" where
  "set_add x s = (if x \<in> set s then s else s @ [x])"

section \<open>Duplicate detection\<close>

definition marker :: pystr where
  "marker = str ''Original Issue: ''"

text \<open>The one-character string \<open>"\n"\<close>.\<close>

definition newline :: pystr where
  "newline = [10]"

text \<open>
  The body of the loop over \<open>vibe_tasks\<close> in \<open>run_sync\<close>, on the pair
  \<open>(existing_urls, existing_titles)\<close>.
\<close>

definition sync_scan_task :: "task \<Rightarrow> pyset \<times> pyset \<Rightarrow> pyset \<times> pyset" where
  "sync_scan_task task sets =
     (let existing_urls = fst sets;
          existing_titles = snd sets;
          content = (case task_content task of None \<Rightarrow> [] | Some c \<Rightarrow> c);
          title = (case task_title task of None \<Rightarrow> [] | Some t \<Rightarrow> t);
          existing_titles =
            (if title \<noteq> [] then set_add (strip title) existing_titles else existing_titles);
          existing_urls =
            (if py_in marker content then
               (let url_start = py_find content marker 0 + int (length marker);
                    url_end = py_find content newline (nat url_start);
                    url_end = (if url_end = - 1 then int (length content) else url_end);
                    url = strip (py_slice content url_start url_end)
                in if url \<noteq> [] then set_add url existing_urls else existing_urls)
             else existing_urls);
          github_urls = findall_github content
      in (foldl (\<lambda>s url. set_add (strip url) s) existing_urls github_urls, existing_titles))"

definition sync_build_sets :: "task list \<Rightarrow> pyset \<times> pyset" where
  "sync_build_sets vibe_tasks = foldl (\<lambda>sets task. sync_scan_task task sets) ([], []) vibe_tasks"

definition sync_is_duplicate :: "pyset \<times> pyset \<Rightarrow> issue \<Rightarrow> bool" where
  "sync_is_duplicate sets issue \<longleftrightarrow>
     issue_url issue \<in> set (fst sets) \<or> strip (issue_title issue) \<in> set (snd sets)"

text \<open>The same two steps as \<open>dry_run\<close> writes them.\<close>

definition dry_run_scan_task :: "task \<Rightarrow> pyset \<times> pyset \<Rightarrow> pyset \<times> pyset" where
  "dry_run_scan_task task sets =
     (let content = (case task_content task of None \<Rightarrow> [] | Some c \<Rightarrow> c);
          title = (case task_title task of None \<Rightarrow> [] | Some t \<Rightarrow> t);
          titles = (if title \<noteq> [] then set_add (strip title) (snd sets) else snd sets);
          urls =
            (if py_in marker content then
               (let url_start = py_find content marker 0 + int (length marker);
                    url_end = py_find content newline (nat url_start);
                    url_end = (if url_end = - 1 then int (length content) else url_end);
                    url = strip (py_slice content url_start url_end)
                in if url \<noteq> [] then set_add url (fst sets) else fst sets)
             else fst sets)
      in (foldl (\<lambda>s url. set_add (strip url) s) urls (findall_github content), titles))"

definition dry_run_build_sets :: "task list \<Rightarrow> pyset \<times> pyset" where
  "dry_run_build_sets vibe_tasks =
     foldl (\<lambda>sets task. dry_run_scan_task task sets) ([], []) vibe_tasks"

text \<open>\<open>new_issues\<close> of \<open>dry_run\<close>: the issues it reports as the ones to create.\<close>

fun dry_run_new_issues :: "pyset \<times> pyset \<Rightarrow> issue list \<Rightarrow> issue list" where
  "dry_run_new_issues sets [] = []"
| "dry_run_new_issues sets (issue # gh_issues) =
     (let is_duplicate =
            (issue_url issue \<in> set (fst sets) \<or> strip (issue_title issue) \<in> set (snd sets))
      in if \<not> is_duplicate then issue # dry_run_new_issues sets gh_issues
         else dry_run_new_issues sets gh_issues)"

section \<open>The three clients\<close>

text \<open>Exceptions that no handler of the clients names; they reach the caller.\<close>

datatype py_error = OSError | AttributeError | TimeoutExpiredError

text \<open>
  What \<open>subprocess.run(cmd, capture_output=True, text=True, check=True, timeout=60)\<close>
  can do: complete with exit status 0 (the standard output is represented by what
  \<open>json.loads\<close> makes of it, \<open>None\<close> when it raises \<open>JSONDecodeError\<close>), raise
  \<open>CalledProcessError\<close> on another exit status, raise \<open>TimeoutExpired\<close>, or raise
  \<open>OSError\<close> when the tool cannot be started.
\<close>

datatype run_result =
    CompletedProcess "issue list option"
  | CalledProcessError
  | TimeoutExpired
  | RunOSError

text \<open>\<open>str(limit)\<close>.\<close>

fun digits :: "nat \<Rightarrow> pystr" where
  "digits n = (if n < 10 then [48 + int n] else digits (n div 10) @ [48 + int (n mod 10)])"

declare digits.simps [simp del]

definition str_of_int :: "int \<Rightarrow> pystr" where
  "str_of_int i = (if i < 0 then 45 # digits (nat (- i)) else digits (nat i))"

definition gh_cmd :: "pystr \<Rightarrow> int \<Rightarrow> pystr list" where
  "gh_cmd repo limit =
     [str ''gh'', str ''issue'', str ''list'', str ''--repo'', repo, str ''--state'',
      str ''open'', str ''--limit'', str_of_int limit, str ''--json'',
      str ''number,title,body,url'']"

definition fetch_github_issues ::
  "(pystr list \<Rightarrow> run_result) \<Rightarrow> pystr \<Rightarrow> int \<Rightarrow> py_error + issue list" where
  "fetch_github_issues run repo limit =
     (case run (gh_cmd repo limit) of
        CompletedProcess out \<Rightarrow> (case out of Some issues \<Rightarrow> Inr issues | None \<Rightarrow> Inr [])
      | CalledProcessError \<Rightarrow> Inr []
      | TimeoutExpired \<Rightarrow> Inr []
      | RunOSError \<Rightarrow> Inl OSError)"

text \<open>
  What \<open>requests.get\<close> can do.  A response carries its status code and what
  \<open>resp.json()\<close> gives: an object, of which the truth value of \<open>data.get("success")\<close>
  and the \<open>"data"\<close> entry (\<open>None\<close> when the key is absent) are kept, or a JSON value that
  is not an object, where \<open>data.get\<close> raises \<open>AttributeError\<close>.  A body that is not JSON
  at all is left out: which exception \<open>resp.json()\<close> raises there depends on the version
  of the library.
\<close>

datatype json_body = Envelope bool "task list option" | NonObject

datatype get_result = GetResponse int json_body | GetTimeout | GetRequestException

definition fetch_vibe_tasks ::
  "(pystr \<Rightarrow> pystr \<Rightarrow> get_result) \<Rightarrow> pystr \<Rightarrow> pystr \<Rightarrow> py_error + task list" where
  "fetch_vibe_tasks get api_url project_id =
     (case get (api_url @ str ''/api/tasks'') project_id of
        GetResponse status_code data \<Rightarrow>
          (if status_code = 200 then
             (case data of
                Envelope success tasks \<Rightarrow>
                  (if success then Inr (case tasks of None \<Rightarrow> [] | Some ts \<Rightarrow> ts)
                   else Inr [])
              | NonObject \<Rightarrow> Inl AttributeError)
           else Inr [])
      | GetTimeout \<Rightarrow> Inr []
      | GetRequestException \<Rightarrow> Inr [])"

text \<open>The JSON payload of the POST, and what \<open>requests.post\<close> can do.\<close>

record payload =
  payload_title :: pystr
  payload_project_id :: pystr
  payload_content :: pystr

datatype post_result = PostResponse int | PostTimeout | PostRequestException

definition create_vibe_task ::
  "(pystr \<Rightarrow> payload \<Rightarrow> post_result) \<Rightarrow> pystr \<Rightarrow> pystr \<Rightarrow> pystr \<Rightarrow> pystr \<Rightarrow> bool" where
  "create_vibe_task post api_url project_id title content =
     (let payload = \<lparr>payload_title = title, payload_project_id = project_id,
                     payload_content = content\<rparr>
      in case post (api_url @ str ''/api/tasks'') payload of
           PostResponse status_code \<Rightarrow> (if status_code \<in> {200, 201} then True else False)
         | PostTimeout \<Rightarrow> False
         | PostRequestException \<Rightarrow> False)"

text \<open>
  The two clients of the older script \<open>main.py\<close>.  It runs the tool with a fixed limit
  and without a timeout, and names no \<open>TimeoutExpired\<close> handler; its POST handler names
  \<open>RequestException\<close> only, of which \<open>Timeout\<close> is a subclass.
\<close>

definition main_gh_cmd :: "pystr \<Rightarrow> pystr list" where
  "main_gh_cmd repo =
     [str ''gh'', str ''issue'', str ''list'', str ''--repo'', repo, str ''--state'',
      str ''open'', str ''--limit'', str ''50'', str ''--json'',
      str ''number,title,body,url'']"

definition main_fetch_github_issues ::
  "(pystr list \<Rightarrow> run_result) \<Rightarrow> pystr \<Rightarrow> py_error + issue list" where
  "main_fetch_github_issues run repo =
     (case run (main_gh_cmd repo) of
        CompletedProcess out \<Rightarrow> (case out of Some issues \<Rightarrow> Inr issues | None \<Rightarrow> Inr [])
      | CalledProcessError \<Rightarrow> Inr []
      | TimeoutExpired \<Rightarrow> Inl TimeoutExpiredError
      | RunOSError \<Rightarrow> Inl OSError)"

definition main_create_vibe_task ::
  "(pystr \<Rightarrow> payload \<Rightarrow> post_result) \<Rightarrow> pystr \<Rightarrow> pystr \<Rightarrow> pystr \<Rightarrow> pystr \<Rightarrow> bool" where
  "main_create_vibe_task post api_url project_id title content =
     (let payload = \<lparr>payload_title = title, payload_project_id = project_id,
                     payload_content = content\<rparr>
      in case post (api_url @ str ''/api/tasks'') payload of
           PostResponse status_code \<Rightarrow> (if status_code \<in> {200, 201} then True else False)
         | PostTimeout \<Rightarrow> False
         | PostRequestException \<Rightarrow> False)"

section \<open>The sync loop\<close>

record project =
  github_repo :: pystr
  vibe_project_id :: pystr

text \<open>The configuration; \<open>None\<close> is a key that \<open>config.get\<close> does not find.\<close>

record config =
  sync_interval_seconds :: "int option"
  issue_limit :: "int option"
  projects :: "project list option"

text \<open>
  The calls that leave the process, in the order they are made: the \<open>gh\<close> invocation
  (repository, limit), the GET (URL, project), the POST (URL, project, title, content) and
  \<open>time.sleep\<close> (seconds).
\<close>

datatype event =
    FetchIssues pystr int
  | FetchTasks pystr pystr
  | CreateTask pystr pystr pystr pystr
  | Sleep nat

text \<open>
  The world outside the process.  The calls are numbered from 0 in the order they are made;
  \<open>gh_run w k\<close>, \<open>http_get w k\<close> and \<open>http_post w k\<close> are what call \<open>k\<close> meets if it
  is of that kind, and \<open>signal w k\<close> says that SIGINT or SIGTERM is delivered, so that
  \<open>signal_handler\<close> sets the flag, after the flag was last read before call \<open>k\<close> and
  before it is read again after that call.
\<close>

record world =
  gh_run :: "nat \<Rightarrow> pystr list \<Rightarrow> run_result"
  http_get :: "nat \<Rightarrow> pystr \<Rightarrow> pystr \<Rightarrow> get_result"
  http_post :: "nat \<Rightarrow> pystr \<Rightarrow> payload \<Rightarrow> post_result"
  signal :: "nat \<Rightarrow> bool"

text \<open>The global flag and the calls made so far.\<close>

record sync_state =
  shutdown_requested :: bool
  trace :: "event list"

definition act :: "world \<Rightarrow> event \<Rightarrow> sync_state \<Rightarrow> sync_state" where
  "act w e st =
     \<lparr>shutdown_requested = (shutdown_requested st \<or> signal w (length (trace st))),
      trace = trace st @ [e]\<rparr>"

text \<open>How a loop ends: it returns, an exception leaves it, or the fuel of the model ran out.\<close>

datatype result = Returned sync_state | Raised py_error sync_state | Running sync_state

fun final :: "result \<Rightarrow> sync_state" where
  "final (Returned st) = st"
| "final (Raised e st) = st"
| "final (Running st) = st"

text \<open>
  \<open>task_content = f"{issue_body}\n\nOriginal Issue: {issue_url}"\<close>, where
  \<open>issue_body = issue["body"] or ""\<close>.
\<close>

definition new_task_content :: "issue \<Rightarrow> pystr" where
  "new_task_content issue =
     (let body = (case issue_body issue of None \<Rightarrow> [] | Some b \<Rightarrow> b)
      in body @ newline @ newline @ marker @ issue_url issue)"

text \<open>The body of the loop over \<open>gh_issues\<close>.\<close>

definition sync_issue ::
  "world \<Rightarrow> pystr \<Rightarrow> pystr \<Rightarrow> issue \<Rightarrow> (pyset \<times> pyset) \<times> sync_state
     \<Rightarrow> (pyset \<times> pyset) \<times> sync_state" where
  "sync_issue w vibe_url vibe_proj_id issue s =
     (let existing_urls = fst (fst s);
          existing_titles = snd (fst s);
          st = snd s;
          title = issue_title issue;
          url = issue_url issue;
          task_content = new_task_content issue;
          is_duplicate = (url \<in> set existing_urls \<or> strip title \<in> set existing_titles)
      in if is_duplicate then s
         else
           (let success = create_vibe_task (http_post w (length (trace st)))
                            vibe_url vibe_proj_id title task_content;
                st = act w (CreateTask vibe_url vibe_proj_id title task_content) st
            in if success
               then ((set_add url existing_urls, set_add (strip title) existing_titles), st)
               else ((existing_urls, existing_titles), st)))"

fun create_loop ::
  "world \<Rightarrow> pystr \<Rightarrow> pystr \<Rightarrow> issue list \<Rightarrow> (pyset \<times> pyset) \<times> sync_state
     \<Rightarrow> (pyset \<times> pyset) \<times> sync_state" where
  "create_loop w vibe_url vibe_proj_id [] s = s"
| "create_loop w vibe_url vibe_proj_id (issue # gh_issues) s =
     create_loop w vibe_url vibe_proj_id gh_issues (sync_issue w vibe_url vibe_proj_id issue s)"

text \<open>One mapping: the body of the loop over the projects, after its flag check.\<close>

definition sync_project ::
  "world \<Rightarrow> pystr \<Rightarrow> int \<Rightarrow> project \<Rightarrow> sync_state \<Rightarrow> result" where
  "sync_project w vibe_url limit project st =
     (let gh_repo = github_repo project;
          vibe_proj_id = vibe_project_id project;
          st1 = act w (FetchIssues gh_repo limit) st
      in case fetch_github_issues (gh_run w (length (trace st))) gh_repo limit of
           Inl e \<Rightarrow> Raised e st1
         | Inr gh_issues \<Rightarrow>
             (let st2 = act w (FetchTasks vibe_url vibe_proj_id) st1
              in case fetch_vibe_tasks (http_get w (length (trace st1))) vibe_url vibe_proj_id of
                   Inl e \<Rightarrow> Raised e st2
                 | Inr vibe_tasks \<Rightarrow>
                     Returned (snd (create_loop w vibe_url vibe_proj_id gh_issues
                                      (sync_build_sets vibe_tasks, st2)))))"

fun sync_projects ::
  "world \<Rightarrow> pystr \<Rightarrow> int \<Rightarrow> project list \<Rightarrow> sync_state \<Rightarrow> result" where
  "sync_projects w vibe_url limit [] st = Returned st"
| "sync_projects w vibe_url limit (project # ps) st =
     (if shutdown_requested st then Returned st
      else case sync_project w vibe_url limit project st of
             Returned st' \<Rightarrow> sync_projects w vibe_url limit ps st'
           | r \<Rightarrow> r)"

text \<open>\<open>for _ in range(sync_interval)\<close>, with \<open>n\<close> rounds left.\<close>

fun sleep_loop :: "world \<Rightarrow> nat \<Rightarrow> sync_state \<Rightarrow> sync_state" where
  "sleep_loop w 0 st = st"
| "sleep_loop w (Suc n) st =
     (if shutdown_requested st then st else sleep_loop w n (act w (Sleep 1) st))"

text \<open>
  \<open>while not shutdown_requested\<close>.  The loop of a service need not end, so the model
  runs at most \<open>fuel\<close> rounds of it and answers \<open>Running\<close> when they are used up.
\<close>

fun sync_loop ::
  "nat \<Rightarrow> world \<Rightarrow> pystr \<Rightarrow> int \<Rightarrow> int \<Rightarrow> project list \<Rightarrow> bool \<Rightarrow> sync_state \<Rightarrow> result" where
  "sync_loop 0 w vibe_url sync_interval limit ps once st = Running st"
| "sync_loop (Suc fuel) w vibe_url sync_interval limit ps once st =
     (if shutdown_requested st then Returned st
      else case sync_projects w vibe_url limit ps st of
             Returned st1 \<Rightarrow>
               (if once then Returned st1
                else sync_loop fuel w vibe_url sync_interval limit ps once
                       (if \<not> shutdown_requested st1
                        then sleep_loop w (nat sync_interval) st1 else st1))
           | r \<Rightarrow> r)"

text \<open>
  \<open>run_sync(config, once)\<close>; \<open>vibe_url\<close> is what \<open>get_vibe_api_url(config)\<close> returned,
  and \<open>st\<close> holds the flag as it stands when the function is entered.
\<close>

definition run_sync :: "nat \<Rightarrow> world \<Rightarrow> pystr \<Rightarrow> config \<Rightarrow> bool \<Rightarrow> sync_state \<Rightarrow> result" where
  "run_sync fuel w vibe_url cfg once st =
     (let sync_interval = (case sync_interval_seconds cfg of None \<Rightarrow> 60 | Some n \<Rightarrow> n);
          limit = (case issue_limit cfg of None \<Rightarrow> 100 | Some n \<Rightarrow> n)
      in sync_loop fuel w vibe_url sync_interval limit
           (case projects cfg of None \<Rightarrow> [] | Some ps \<Rightarrow> ps) once st)"

section \<open>Notions used in the statements about the loop\<close>

text \<open>
  Started from a state with flag \<open>b\<close> and no calls made, the flag as it is read before
  call \<open>k\<close>: it was set at the start or a signal came with an earlier call.
\<close>

abbreviation flag_before :: "world \<Rightarrow> bool \<Rightarrow> nat \<Rightarrow> bool" where
  "flag_before w b k \<equiv> b \<or> (\<exists>j<k. signal w j)"

text \<open>The calls that begin a mapping or a second of sleep.\<close>

abbreviation starts_work :: "event \<Rightarrow> bool" where
  "starts_work e \<equiv> (\<exists>repo limit. e = FetchIssues repo limit) \<or> (\<exists>n. e = Sleep n)"

text \<open>
  The invariant of the loops: the flag of the state is the flag just described, every call
  that begins a mapping or a second of sleep was made with the flag unset, and every sleep
  is one second long.
\<close>

definition checked :: "world \<Rightarrow> bool \<Rightarrow> sync_state \<Rightarrow> bool" where
  "checked w b st \<longleftrightarrow>
     (shutdown_requested st \<longleftrightarrow> flag_before w b (length (trace st))) \<and>
     (\<forall>k<length (trace st). starts_work (trace st ! k) \<longrightarrow> \<not> flag_before w b k) \<and>
     (\<forall>n. Sleep n \<in> set (trace st) \<longrightarrow> n = 1)"

text \<open>The POST that \<open>run_sync\<close> makes for an issue.\<close>

abbreviation post_of :: "pystr \<Rightarrow> pystr \<Rightarrow> issue \<Rightarrow> event" where
  "post_of vibe_url pid issue \<equiv>
     CreateTask vibe_url pid (issue_title issue) (new_task_content issue)"

text \<open>
  The calls of one mapping whose first call has number \<open>k\<close>: the issues are fetched,
  the tasks are fetched, and then come the POSTs for some of the fetched issues, in the
  order of the list.  Each posted issue is no duplicate of the sets built from the fetched
  tasks: its trimmed title is that of no task with a title, and its URL is matched in no
  content.  Each fetched issue that is no duplicate of those sets has a POST of its own or
  shares its URL or trimmed title with a posted issue.
\<close>

abbreviation pass_at ::
  "world \<Rightarrow> pystr \<Rightarrow> int \<Rightarrow> project \<Rightarrow> nat \<Rightarrow> event list \<Rightarrow> bool" where
  "pass_at w vibe_url limit project k evs \<equiv>
     \<exists>gh_issues vibe_tasks posted.
       fetch_github_issues (gh_run w k) (github_repo project) limit = Inr gh_issues \<and>
       fetch_vibe_tasks (http_get w (Suc k)) vibe_url (vibe_project_id project) = Inr vibe_tasks \<and>
       evs = [FetchIssues (github_repo project) limit,
              FetchTasks vibe_url (vibe_project_id project)] @
             map (post_of vibe_url (vibe_project_id project)) posted \<and>
       subseq posted gh_issues \<and>
       (\<forall>i \<in> set posted.
          \<not> sync_is_duplicate (sync_build_sets vibe_tasks) i \<and>
          strip (issue_title i) \<notin>
            {strip title | title. title \<noteq> [] \<and> Some title \<in> task_title ` set vibe_tasks} \<and>
          (\<forall>task \<in> set vibe_tasks. \<forall>content. task_content task = Some content \<longrightarrow>
             issue_url i \<notin> set (findall_github content))) \<and>
       (\<forall>i \<in> set gh_issues. \<not> sync_is_duplicate (sync_build_sets vibe_tasks) i \<longrightarrow>
          (\<exists>j \<in> set posted. issue_url j = issue_url i \<or>
                              strip (issue_title j) = strip (issue_title i)))"

section \<open>Example data\<close>

abbreviation quiet_world :: world where
  "quiet_world \<equiv>
     \<lparr>gh_run = \<lambda>k cmd. CompletedProcess (Some []),
      http_get = \<lambda>k url pid. GetResponse 200 (Envelope True (Some [])),
      http_post = \<lambda>k url p. PostResponse 201,
      signal = \<lambda>k. False\<rparr>"

abbreviation start :: sync_state where
  "start \<equiv> \<lparr>shutdown_requested = False, trace = []\<rparr>"

abbreviation issue5_url :: pystr where
  "issue5_url \<equiv> str ''https://github.com/o/r/issues/5''"

abbreviation task5 :: task where
  "task5 \<equiv>
     \<lparr>task_id = str ''t1'', task_title = Some (str ''fix bug''),
      task_content = Some (str ''fix bug'' @ newline @ newline @ marker @ issue5_url),
      task_project_id = str ''p1''\<rparr>"

abbreviation issue5 :: issue where
  "issue5 \<equiv>
     \<lparr>issue_number = 5, issue_title = str ''fix bug'', issue_body = Some (str ''fix bug''),
      issue_url = issue5_url\<rparr>"

abbreviation untitled_task :: task where
  "untitled_task \<equiv>
     \<lparr>task_id = str ''t2'', task_title = Some [], task_content = None,
      task_project_id = str ''p1''\<rparr>"

abbreviation blank_issue :: issue where
  "blank_issue \<equiv>
     \<lparr>issue_number = 7, issue_title = str ''  '', issue_body = None,
      issue_url = str ''https://github.com/o/r/issues/7''\<rparr>"

abbreviation issue6 :: issue where
  "issue6 \<equiv>
     \<lparr>issue_number = 6, issue_title = str '' fix bug '', issue_body = None,
      issue_url = str ''https://github.com/o/r/issues/6''\<rparr>"

abbreviation flaky_world :: world where
  "flaky_world \<equiv>
     \<lparr>gh_run = \<lambda>k cmd. CompletedProcess (Some []),
      http_get = \<lambda>k url pid. GetResponse 200 (Envelope True (Some [])),
      http_post = \<lambda>k url p. if k = 0 then PostResponse 500 else PostResponse 201,
      signal = \<lambda>k. False\<rparr>"

abbreviation board :: pystr where
  "board \<equiv> str ''http://localhost:3000''"

abbreviation enterprise_url :: pystr where
  "enterprise_url \<equiv> str ''https://github.example.com/o/r/issues/1''"

abbreviation twice_marked :: task where
  "twice_marked \<equiv>
     \<lparr>task_id = str ''t3'', task_title = Some (str ''moved''),
      task_content = Some (marker @ newline @ marker @ enterprise_url),
      task_project_id = str ''p1''\<rparr>"

abbreviation failing_board :: world where
  "failing_board \<equiv>
     \<lparr>gh_run = \<lambda>k cmd. CompletedProcess (Some [issue5]),
      http_get = \<lambda>k url pid. GetResponse 500 NonObject,
      http_post = \<lambda>k url p. PostResponse 201,
      signal = \<lambda>k. False\<rparr>"

abbreviation project1 :: project where
  "project1 \<equiv> \<lparr>github_repo = str ''o/r'', vibe_project_id = str ''p1''\<rparr>"

abbreviation project2 :: project where
  "project2 \<equiv> \<lparr>github_repo = str ''o/s'', vibe_project_id = str ''p2''\<rparr>"

abbreviation two_mappings :: config where
  "two_mappings \<equiv>
     \<lparr>sync_interval_seconds = Some 3, issue_limit = None,
      projects = Some [project1, project2]\<rparr>"

abbreviation signalled_world :: world where
  "signalled_world \<equiv>
     \<lparr>gh_run = \<lambda>k cmd. CompletedProcess (Some []),
      http_get = \<lambda>k url pid. GetResponse 200 (Envelope True (Some [])),
      http_post = \<lambda>k url p. PostResponse 201,
      signal = \<lambda>k. k = 4\<rparr>"

abbreviation down_world :: world where
  "down_world \<equiv>
     \<lparr>gh_run = \<lambda>k cmd. CompletedProcess (Some []),
      http_get = \<lambda>k url pid. GetResponse 200 (Envelope True (Some [])),
      http_post = \<lambda>k url p. PostTimeout,
      signal = \<lambda>k. False\<rparr>"

abbreviation busy_world :: world where
  "busy_world \<equiv>
     \<lparr>gh_run = \<lambda>k cmd. if k = 0 then CompletedProcess (Some [issue5, blank_issue, blank_issue])
                        else CompletedProcess (Some []),
      http_get = \<lambda>k url pid. GetResponse 200 (Envelope True (Some [task5])),
      http_post = \<lambda>k url p. PostResponse 201,
      signal = \<lambda>k. False\<rparr>"

abbreviation no_gh_world :: world where
  "no_gh_world \<equiv>
     \<lparr>gh_run = \<lambda>k cmd. RunOSError,
      http_get = \<lambda>k url pid. GetResponse 200 (Envelope True (Some [])),
      http_post = \<lambda>k url p. PostResponse 201,
      signal = \<lambda>k. False\<rparr>"

abbreviation array_world :: world where
  "array_world \<equiv>
     \<lparr>gh_run = \<lambda>k cmd. CompletedProcess (Some []),
      http_get = \<lambda>k url pid. GetResponse 200 NonObject,
      http_post = \<lambda>k url p. PostResponse 201,
      signal = \<lambda>k. False\<rparr>"

abbreviation gh_fails_world :: world where
  "gh_fails_world \<equiv>
     \<lparr>gh_run = \<lambda>k cmd. CalledProcessError,
      http_get = \<lambda>k url pid. GetResponse 200 (Envelope True (Some [task5])),
      http_post = \<lambda>k url p. PostResponse 201,
      signal = \<lambda>k. False\<rparr>"

section \<open>Facts about the string functions and the sets\<close>

lemma set_set_add: "set (set_add x s) = insert x (set s)"
  by (auto simp: set_add_def)

lemma distinct_set_add: "distinct s \<Longrightarrow> distinct (set_add x s)"
  by (simp add: set_add_def)

lemma set_foldl_set_add:
  "set (foldl (\<lambda>s u. set_add (f u) s) acc us) = set acc \<union> f ` set us"
  by (induction us arbitrary: acc) (auto simp: set_set_add)

lemma distinct_foldl_set_add:
  "distinct acc \<Longrightarrow> distinct (foldl (\<lambda>s u. set_add (f u) s) acc us)"
  by (induction us arbitrary: acc) (auto simp: distinct_set_add)

lemma strip_unchanged:
  assumes "s \<noteq> []" and "\<not> isspace (hd s)" and "\<not> isspace (last s)"
  shows "strip s = s"
proof -
  from assms(1,2) have "dropWhile isspace s = s"
    by (cases s) simp_all
  moreover from assms(1,3) have "dropWhile isspace (rev s) = rev s"
    by (cases "rev s") (simp_all add: last_rev [symmetric] hd_rev)
  ultimately show ?thesis
    by (simp add: strip_def)
qed

lemma github_prefix_eq:
  "github_prefix = [104, 116, 116, 112, 115, 58, 47, 47, 103, 105, 116, 104, 117, 98, 46, 99, 111, 109, 47]"
  by (simp add: github_prefix_def str_def)

lemma findall_github_shape:
  "u \<in> set (findall_github s) \<Longrightarrow>
     \<exists>m. u = github_prefix @ m \<and> m \<noteq> [] \<and> (\<forall>c \<in> set m. url_char c)"
proof (induction s rule: findall_github.induct)
  case 1
  then show ?case by simp
next
  case (2 c cs)
  show ?case
  proof (cases "prefix github_prefix (c # cs) \<and>
         takeWhile url_char (drop (length github_prefix) (c # cs)) \<noteq> []")
    case True
    with 2 show ?thesis
      by (auto dest: set_takeWhileD)
  next
    case False
    with 2 show ?thesis by auto
  qed
qed

lemma strip_findall_github:
  assumes "u \<in> set (findall_github s)"
  shows "strip u = u"
proof -
  from findall_github_shape [OF assms] obtain m where
    u: "u = github_prefix @ m" and m: "m \<noteq> []" and all: "\<forall>c \<in> set m. url_char c"
    by blast
  have "hd u = 104" by (simp add: u github_prefix_eq)
  then have "\<not> isspace (hd u)" by (simp add: isspace_def)
  moreover have "last u = last m" using m by (simp add: u)
  then have "\<not> isspace (last u)" using all m by (auto simp: url_char_def)
  moreover have "u \<noteq> []" using m by (simp add: u)
  ultimately show ?thesis by (simp add: strip_unchanged)
qed

lemma find_sub_first:
  "n \<le> length s \<Longrightarrow> prefix sub (drop n s) \<Longrightarrow> \<forall>i<n. \<not> prefix sub (drop i s)
     \<Longrightarrow> find_sub sub s = Some n"
proof (induction s arbitrary: n)
  case Nil
  then show ?case by simp
next
  case (Cons c cs)
  show ?case
  proof (cases n)
    case 0
    with Cons.prems show ?thesis by simp
  next
    case (Suc k)
    with Cons.prems have "\<not> prefix sub (c # cs)" by (metis drop0 zero_less_Suc)
    moreover have "find_sub sub cs = Some k"
    proof (rule Cons.IH)
      show "k \<le> length cs" using Cons.prems Suc by simp
      show "prefix sub (drop k cs)" using Cons.prems Suc by simp
      show "\<forall>i<k. \<not> prefix sub (drop i cs)"
      proof (intro allI impI)
        fix i assume "i < k"
        then have "Suc i < n" using Suc by simp
        with Cons.prems have "\<not> prefix sub (drop (Suc i) (c # cs))" by blast
        then show "\<not> prefix sub (drop i cs)" by simp
      qed
    qed
    ultimately show ?thesis using Suc by simp
  qed
qed

lemma find_sub_Some:
  "find_sub sub s = Some n \<Longrightarrow>
     n \<le> length s \<and> prefix sub (drop n s) \<and> (\<forall>i<n. \<not> prefix sub (drop i s))"
proof (induction s arbitrary: n)
  case Nil
  then show ?case by (simp split: if_splits)
next
  case (Cons c cs)
  show ?case
  proof (cases "prefix sub (c # cs)")
    case True
    with Cons.prems show ?thesis by simp
  next
    case False
    with Cons.prems obtain k where k: "find_sub sub cs = Some k" and n: "n = Suc k"
      by auto
    from Cons.IH [OF k] have ih: "k \<le> length cs" "prefix sub (drop k cs)"
      "\<forall>i<k. \<not> prefix sub (drop i cs)" by simp_all
    have "\<forall>i<n. \<not> prefix sub (drop i (c # cs))"
    proof (intro allI impI)
      fix i assume "i < n"
      then show "\<not> prefix sub (drop i (c # cs))"
        using False ih(3) n by (cases i) simp_all
    qed
    with ih n show ?thesis by simp
  qed
qed

lemma find_newline_none: "10 \<notin> set line \<Longrightarrow> find_sub newline line = None"
  by (induction line) (auto simp: newline_def)

lemma find_newline_some:
  "10 \<notin> set line \<Longrightarrow> find_sub newline (line @ 10 # r) = Some (length line)"
  by (induction line) (auto simp: newline_def)

lemma count_list_distinct: "distinct xs \<Longrightarrow> x \<in> set xs \<Longrightarrow> count_list xs x = 1"
  by (induction xs) auto

lemma snd_sync_scan_task:
  "set (snd (sync_scan_task t sets)) =
     set (snd sets) \<union> (case task_title t of None \<Rightarrow> {}
                         | Some ti \<Rightarrow> if ti = [] then {} else {strip ti})"
  by (auto simp: sync_scan_task_def Let_def set_set_add split: option.splits)

lemma fst_sync_scan_task:
  "set (fst (sync_scan_task t sets)) = set (fst sets) \<union> set (fst (sync_scan_task t ([], [])))"
  by (auto simp: sync_scan_task_def Let_def set_set_add set_foldl_set_add split: option.splits)

lemma distinct_sync_scan_task:
  "distinct (fst sets) \<Longrightarrow> distinct (snd sets) \<Longrightarrow>
     distinct (fst (sync_scan_task t sets)) \<and> distinct (snd (sync_scan_task t sets))"
  by (simp add: sync_scan_task_def Let_def distinct_set_add distinct_foldl_set_add)

lemma foldl_sync_scan_task_urls:
  "set (fst (foldl (\<lambda>sets task. sync_scan_task task sets) sets ts)) =
     set (fst sets) \<union> (\<Union>t \<in> set ts. set (fst (sync_scan_task t ([], []))))"
proof (induction ts arbitrary: sets)
  case Nil
  then show ?case by simp
next
  case (Cons t ts)
  have "set (fst (foldl (\<lambda>sets task. sync_scan_task task sets) (sync_scan_task t sets) ts)) =
      set (fst (sync_scan_task t sets)) \<union> (\<Union>t \<in> set ts. set (fst (sync_scan_task t ([], []))))"
    by (rule Cons.IH)
  then show ?case
    using fst_sync_scan_task [of t sets] by auto
qed

lemma foldl_sync_scan_task_titles:
  "set (snd (foldl (\<lambda>sets task. sync_scan_task task sets) sets ts)) =
     set (snd sets) \<union> {strip ti | ti. ti \<noteq> [] \<and> Some ti \<in> task_title ` set ts}"
proof (induction ts arbitrary: sets)
  case Nil
  then show ?case by simp
next
  case (Cons t ts)
  have "set (snd (foldl (\<lambda>sets task. sync_scan_task task sets) (sync_scan_task t sets) ts)) =
      set (snd (sync_scan_task t sets)) \<union> {strip ti | ti. ti \<noteq> [] \<and> Some ti \<in> task_title ` set ts}"
    by (rule Cons.IH)
  then show ?case
    by (auto simp: snd_sync_scan_task split: option.splits if_splits)
qed

lemma foldl_sync_scan_task_distinct:
  "distinct (fst sets) \<Longrightarrow> distinct (snd sets) \<Longrightarrow>
     distinct (fst (foldl (\<lambda>sets task. sync_scan_task task sets) sets ts)) \<and>
     distinct (snd (foldl (\<lambda>sets task. sync_scan_task task sets) sets ts))"
  by (induction ts arbitrary: sets) (simp_all add: distinct_sync_scan_task)

lemma sync_build_sets_titles:
  "set (snd (sync_build_sets ts)) = {strip ti | ti. ti \<noteq> [] \<and> Some ti \<in> task_title ` set ts}"
  by (simp add: sync_build_sets_def foldl_sync_scan_task_titles)

lemma sync_build_sets_urls:
  "set (fst (sync_build_sets ts)) = (\<Union>t \<in> set ts. set (fst (sync_scan_task t ([], []))))"
  by (simp add: sync_build_sets_def foldl_sync_scan_task_urls)

lemma sync_build_sets_distinct:
  "distinct (fst (sync_build_sets ts)) \<and> distinct (snd (sync_build_sets ts))"
  by (simp add: sync_build_sets_def foldl_sync_scan_task_distinct)

lemma scan_findall:
  assumes "task_content t = Some content" and "u \<in> set (findall_github content)"
  shows "u \<in> set (fst (sync_scan_task t ([], [])))"
proof -
  have "strip u \<in> strip ` set (findall_github content)" using assms(2) by simp
  then have "u \<in> strip ` set (findall_github content)"
    by (simp add: strip_findall_github [OF assms(2)])
  then show ?thesis
    by (simp add: sync_scan_task_def Let_def set_foldl_set_add assms(1))
qed

lemma scan_marker_line:
  assumes c: "task_content t = Some content"
    and decomp: "content = pre @ marker @ line @ rest"
    and first: "\<forall>i<length pre. \<not> prefix marker (drop i content)"
    and line: "10 \<notin> set line"
    and rest: "rest = [] \<or> hd rest = 10"
    and url: "strip line \<noteq> []"
  shows "strip line \<in> set (fst (sync_scan_task t ([], [])))"
proof -
  have found: "find_sub marker content = Some (length pre)"
  proof (rule find_sub_first)
    show "length pre \<le> length content" by (simp add: decomp)
    show "prefix marker (drop (length pre) content)" by (simp add: decomp)
    show "\<forall>i<length pre. \<not> prefix marker (drop i content)" by (rule first)
  qed
  then have isin: "py_in marker content" by (simp add: py_in_def)
  have start: "py_find content marker 0 + int (length marker) = int (length pre + length marker)"
    by (simp add: py_find_def found)
  have tail: "drop (length pre + length marker) content = line @ rest"
    by (simp add: decomp)
  have natint: "nat (int (length pre) + int (length marker)) = length pre + length marker"
    by linarith
  have slice: "py_slice content (int (length pre + length marker))
      (if py_find content newline (length pre + length marker) = - 1 then int (length content)
       else py_find content newline (length pre + length marker)) = line"
  proof (cases rest)
    case Nil
    then have "find_sub newline (line @ rest) = None"
      using line by (simp add: find_newline_none)
    then show ?thesis
      using Nil by (simp add: py_find_def py_slice_def tail natint) (simp add: decomp)
  next
    case (Cons r rs)
    with rest have "r = 10" by simp
    then have "find_sub newline (line @ rest) = Some (length line)"
      using Cons line by (simp add: find_newline_some)
    then show ?thesis
      by (simp add: py_find_def py_slice_def tail natint)
  qed
  show ?thesis
    using url slice
    by (auto simp add: sync_scan_task_def Let_def c isin start set_foldl_set_add set_set_add
        simp del: of_nat_add split: if_splits)
qed

section \<open>Facts about the loop over the issues\<close>

lemma sync_issue_duplicate:
  "sync_is_duplicate (fst s) issue \<Longrightarrow> sync_issue w vibe_url pid issue s = s"
  by (simp add: sync_issue_def sync_is_duplicate_def Let_def)

lemma sync_issue_new:
  "\<not> sync_is_duplicate sets issue \<Longrightarrow>
     sync_issue w vibe_url pid issue (sets, st) =
       (if create_vibe_task (http_post w (length (trace st))) vibe_url pid
             (issue_title issue) (new_task_content issue)
        then (set_add (issue_url issue) (fst sets), set_add (strip (issue_title issue)) (snd sets))
        else sets,
        act w (CreateTask vibe_url pid (issue_title issue) (new_task_content issue)) st)"
  by (simp add: sync_issue_def sync_is_duplicate_def Let_def)

lemma sync_issue_mono:
  "set (fst (fst s)) \<subseteq> set (fst (fst (sync_issue w vibe_url pid issue s))) \<and>
   set (snd (fst s)) \<subseteq> set (snd (fst (sync_issue w vibe_url pid issue s)))"
  by (auto simp: sync_issue_def Let_def set_set_add)

lemma create_loop_mono:
  "set (fst (fst s)) \<subseteq> set (fst (fst (create_loop w vibe_url pid issues s))) \<and>
   set (snd (fst s)) \<subseteq> set (snd (fst (create_loop w vibe_url pid issues s)))"
proof (induction issues arbitrary: s)
  case Nil
  then show ?case by simp
next
  case (Cons i issues)
  from Cons.IH [of "sync_issue w vibe_url pid i s"] sync_issue_mono [of s w vibe_url pid i]
  show ?case by auto
qed

lemma sync_is_duplicate_mono:
  "sync_is_duplicate sets issue \<Longrightarrow> set (fst sets) \<subseteq> set (fst sets') \<Longrightarrow>
     set (snd sets) \<subseteq> set (snd sets') \<Longrightarrow> sync_is_duplicate sets' issue"
  by (auto simp: sync_is_duplicate_def)

lemma sync_issue_trace:
  "\<exists>evs. trace (snd (sync_issue w vibe_url pid issue s)) = trace (snd s) @ evs \<and>
         (\<forall>e \<in> set evs. \<exists>t c. e = CreateTask vibe_url pid t c)"
  by (auto simp: sync_issue_def Let_def act_def)

lemma create_loop_trace:
  "\<exists>evs. trace (snd (create_loop w vibe_url pid issues s)) = trace (snd s) @ evs \<and>
         (\<forall>e \<in> set evs. \<exists>t c. e = CreateTask vibe_url pid t c)"
proof (induction issues arbitrary: s)
  case Nil
  then show ?case by simp
next
  case (Cons i issues)
  from sync_issue_trace [of w vibe_url pid i s] obtain evs1 where
    1: "trace (snd (sync_issue w vibe_url pid i s)) = trace (snd s) @ evs1"
    and 2: "\<forall>e \<in> set evs1. \<exists>t c. e = CreateTask vibe_url pid t c" by blast
  from Cons.IH [of "sync_issue w vibe_url pid i s"] obtain evs2 where
    3: "trace (snd (create_loop w vibe_url pid issues (sync_issue w vibe_url pid i s))) =
          trace (snd (sync_issue w vibe_url pid i s)) @ evs2"
    and 4: "\<forall>e \<in> set evs2. \<exists>t c. e = CreateTask vibe_url pid t c" by blast
  have "trace (snd (create_loop w vibe_url pid (i # issues) s)) = trace (snd s) @ (evs1 @ evs2)"
    using 1 3 by simp
  moreover have "\<forall>e \<in> set (evs1 @ evs2). \<exists>t c. e = CreateTask vibe_url pid t c"
    using 2 4 by auto
  ultimately show ?case by blast
qed

lemma create_loop_posts_subseq:
  assumes "set (fst sets0) \<subseteq> set (fst sets)" and "set (snd sets0) \<subseteq> set (snd sets)"
  shows "\<exists>evs. trace (snd (create_loop w vibe_url pid issues (sets, st))) = trace st @ evs \<and>
           subseq evs (map (post_of vibe_url pid)
                         (filter (\<lambda>issue. \<not> sync_is_duplicate sets0 issue) issues))"
  using assms
proof (induction issues arbitrary: sets st)
  case Nil
  then show ?case by simp
next
  case (Cons i issues)
  show ?case
  proof (cases "sync_is_duplicate sets i")
    case True
    then have "sync_issue w vibe_url pid i (sets, st) = (sets, st)"
      by (simp add: sync_issue_duplicate)
    moreover from Cons.IH [OF Cons.prems, of st] obtain evs where
      "trace (snd (create_loop w vibe_url pid issues (sets, st))) = trace st @ evs"
      and "subseq evs (map (post_of vibe_url pid)
                         (filter (\<lambda>issue. \<not> sync_is_duplicate sets0 issue) issues))"
      by blast
    ultimately show ?thesis
      by (auto intro: subseq_Cons')
  next
    case False
    have new0: "\<not> sync_is_duplicate sets0 i"
      using False Cons.prems by (auto dest: sync_is_duplicate_mono)
    obtain sets1 st1 where s1: "sync_issue w vibe_url pid i (sets, st) = (sets1, st1)"
      by (cases "sync_issue w vibe_url pid i (sets, st)")
    have tr1: "trace st1 = trace st @ [post_of vibe_url pid i]"
      using False s1 by (auto simp: sync_issue_new act_def)
    have "set (fst sets) \<subseteq> set (fst sets1)" and "set (snd sets) \<subseteq> set (snd sets1)"
      using sync_issue_mono [of "(sets, st)" w vibe_url pid i] by (simp_all add: s1)
    with Cons.prems have "set (fst sets0) \<subseteq> set (fst sets1)"
      and "set (snd sets0) \<subseteq> set (snd sets1)" by auto
    from Cons.IH [OF this, of st1] obtain evs where
      "trace (snd (create_loop w vibe_url pid issues (sets1, st1))) = trace st1 @ evs"
      and "subseq evs (map (post_of vibe_url pid)
                         (filter (\<lambda>issue. \<not> sync_is_duplicate sets0 issue) issues))"
      by blast
    then have "trace (snd (create_loop w vibe_url pid (i # issues) (sets, st))) =
        trace st @ (post_of vibe_url pid i # evs)"
      and "subseq (post_of vibe_url pid i # evs) (map (post_of vibe_url pid)
                         (filter (\<lambda>issue. \<not> sync_is_duplicate sets0 issue) (i # issues)))"
      using new0 by (simp_all add: s1 tr1)
    then show ?thesis by blast
  qed
qed

lemma create_loop_posts_all_failed:
  assumes "\<forall>k url p status. http_post w k url p = PostResponse status
             \<longrightarrow> status \<noteq> 200 \<and> status \<noteq> 201"
  shows "create_loop w vibe_url pid issues (sets, st) =
           (sets, \<lparr>shutdown_requested = shutdown_requested
                     (snd (create_loop w vibe_url pid issues (sets, st))),
                   trace = trace st @ map (post_of vibe_url pid)
                     (filter (\<lambda>issue. \<not> sync_is_duplicate sets issue) issues)\<rparr>)"
proof (induction issues arbitrary: st)
  case Nil
  then show ?case by simp
next
  case (Cons i issues)
  have failed: "\<not> create_vibe_task (http_post w k) vibe_url pid title content" for k title content
    using assms by (auto simp: create_vibe_task_def split: post_result.splits)
  show ?case
  proof (cases "sync_is_duplicate sets i")
    case True
    then have "sync_issue w vibe_url pid i (sets, st) = (sets, st)"
      by (simp add: sync_issue_duplicate)
    with True Cons.IH [of st] show ?thesis by simp
  next
    case False
    then have s1: "sync_issue w vibe_url pid i (sets, st) = (sets, act w (post_of vibe_url pid i) st)"
      by (simp add: sync_issue_new failed)
    from Cons.IH [of "act w (post_of vibe_url pid i) st"] False show ?thesis
      by (simp add: s1 act_def)
  qed
qed

lemma sync_issue_new_dup:
  assumes "\<not> sync_is_duplicate sets i"
    and "sync_is_duplicate (fst (sync_issue w vibe_url pid i (sets, st))) x"
    and "\<not> sync_is_duplicate sets x"
  shows "issue_url x = issue_url i \<or> strip (issue_title x) = strip (issue_title i)"
  using assms
  by (auto simp: sync_issue_new sync_is_duplicate_def set_set_add split: if_splits)

lemma create_loop_posted:
  "\<exists>posted.
     trace (snd (create_loop w vibe_url pid issues (sets, st))) =
       trace st @ map (post_of vibe_url pid) posted \<and>
     subseq posted issues \<and>
     (\<forall>i \<in> set posted. \<not> sync_is_duplicate sets i) \<and>
     (\<forall>i \<in> set issues. \<not> sync_is_duplicate sets i \<longrightarrow>
        (\<exists>j \<in> set posted. issue_url j = issue_url i \<or>
                            strip (issue_title j) = strip (issue_title i)))"
proof (induction issues arbitrary: sets st)
  case Nil
  show ?case by (intro exI [of _ "[]"]) simp
next
  case (Cons i issues)
  show ?case
  proof (cases "sync_is_duplicate sets i")
    case True
    then have s: "sync_issue w vibe_url pid i (sets, st) = (sets, st)"
      by (simp add: sync_issue_duplicate)
    from Cons.IH [of sets st] obtain posted where
      tr: "trace (snd (create_loop w vibe_url pid issues (sets, st))) =
          trace st @ map (post_of vibe_url pid) posted"
      and sub: "subseq posted issues"
      and new: "\<forall>i \<in> set posted. \<not> sync_is_duplicate sets i"
      and all: "\<forall>i \<in> set issues. \<not> sync_is_duplicate sets i \<longrightarrow>
        (\<exists>j \<in> set posted. issue_url j = issue_url i \<or>
                            strip (issue_title j) = strip (issue_title i))"
      by blast
    have "trace (snd (create_loop w vibe_url pid (i # issues) (sets, st))) =
        trace st @ map (post_of vibe_url pid) posted"
      using tr by (simp add: s)
    moreover have "subseq posted (i # issues)"
      using sub by (auto intro: subseq_Cons')
    moreover have "\<forall>x \<in> set (i # issues). \<not> sync_is_duplicate sets x \<longrightarrow>
        (\<exists>j \<in> set posted. issue_url j = issue_url x \<or>
                            strip (issue_title j) = strip (issue_title x))"
      using all True by simp
    ultimately show ?thesis using new by blast
  next
    case False
    obtain sets1 st1 where s1: "sync_issue w vibe_url pid i (sets, st) = (sets1, st1)"
      by (cases "sync_issue w vibe_url pid i (sets, st)")
    have tr1: "trace st1 = trace st @ [post_of vibe_url pid i]"
      using False s1 by (auto simp: sync_issue_new act_def)
    have mono: "set (fst sets) \<subseteq> set (fst sets1)" "set (snd sets) \<subseteq> set (snd sets1)"
      using sync_issue_mono [of "(sets, st)" w vibe_url pid i] by (simp_all add: s1)
    from Cons.IH [of sets1 st1] obtain posted where
      tr: "trace (snd (create_loop w vibe_url pid issues (sets1, st1))) =
          trace st1 @ map (post_of vibe_url pid) posted"
      and sub: "subseq posted issues"
      and new: "\<forall>i \<in> set posted. \<not> sync_is_duplicate sets1 i"
      and all: "\<forall>i \<in> set issues. \<not> sync_is_duplicate sets1 i \<longrightarrow>
        (\<exists>j \<in> set posted. issue_url j = issue_url i \<or>
                            strip (issue_title j) = strip (issue_title i))"
      by blast
    have 1: "trace (snd (create_loop w vibe_url pid (i # issues) (sets, st))) =
        trace st @ map (post_of vibe_url pid) (i # posted)"
      using tr tr1 by (simp add: s1)
    have 2: "subseq (i # posted) (i # issues)"
      using sub by simp
    have 3: "\<forall>x \<in> set (i # posted). \<not> sync_is_duplicate sets x"
      using new False mono by (auto dest: sync_is_duplicate_mono)
    have 4: "\<forall>x \<in> set (i # issues). \<not> sync_is_duplicate sets x \<longrightarrow>
        (\<exists>j \<in> set (i # posted). issue_url j = issue_url x \<or>
                            strip (issue_title j) = strip (issue_title x))"
    proof (intro ballI impI)
      fix x
      assume x: "x \<in> set (i # issues)" and nx: "\<not> sync_is_duplicate sets x"
      show "\<exists>j \<in> set (i # posted). issue_url j = issue_url x \<or>
                            strip (issue_title j) = strip (issue_title x)"
      proof (cases "x = i \<or> sync_is_duplicate sets1 x")
        case True
        then have "issue_url i = issue_url x \<or> strip (issue_title i) = strip (issue_title x)"
        proof
          assume "x = i" then show ?thesis by simp
        next
          assume "sync_is_duplicate sets1 x"
          then have "sync_is_duplicate (fst (sync_issue w vibe_url pid i (sets, st))) x"
            by (simp add: s1)
          from sync_issue_new_dup [OF False this nx] show ?thesis by auto
        qed
        then show ?thesis by auto
      next
        case False
        with x have "x \<in> set issues" and "\<not> sync_is_duplicate sets1 x" by auto
        with all show ?thesis by auto
      qed
    qed
    from 1 2 3 4 show ?thesis by blast
  qed
qed

section \<open>Facts about the loops over the mappings and the seconds\<close>

lemma act_checked:
  assumes "checked w b st"
    and "starts_work e \<Longrightarrow> \<not> shutdown_requested st"
    and "\<And>n. e = Sleep n \<Longrightarrow> n = 1"
  shows "checked w b (act w e st)"
  unfolding checked_def
proof (intro conjI allI impI)
  show "shutdown_requested (act w e st) \<longleftrightarrow> flag_before w b (length (trace (act w e st)))"
    using assms(1) by (auto simp: checked_def act_def less_Suc_eq)
next
  fix k
  assume k: "k < length (trace (act w e st))" and s: "starts_work (trace (act w e st) ! k)"
  show "\<not> flag_before w b k"
  proof (cases "k < length (trace st)")
    case True
    then have "trace (act w e st) ! k = trace st ! k" by (simp add: act_def nth_append)
    with s True assms(1) show ?thesis unfolding checked_def by metis
  next
    case False
    with k have kl: "k = length (trace st)" by (simp add: act_def)
    then have "trace (act w e st) ! k = e" by (simp add: act_def)
    with s have "\<not> shutdown_requested st" using assms(2) by simp
    with assms(1) kl show ?thesis by (simp add: checked_def)
  qed
next
  fix n
  assume "Sleep n \<in> set (trace (act w e st))"
  then show "n = 1"
    using assms(1,3) by (auto simp: checked_def act_def)
qed

lemma sync_issue_checked:
  "checked w b (snd s) \<Longrightarrow> checked w b (snd (sync_issue w vibe_url pid issue s))"
proof -
  assume c: "checked w b (snd s)"
  have "snd (sync_issue w vibe_url pid issue s) = snd s \<or>
      snd (sync_issue w vibe_url pid issue s) =
        act w (CreateTask vibe_url pid (issue_title issue) (new_task_content issue)) (snd s)"
    by (simp add: sync_issue_def Let_def)
  moreover have "checked w b
      (act w (CreateTask vibe_url pid (issue_title issue) (new_task_content issue)) (snd s))"
    by (rule act_checked [OF c]) simp_all
  ultimately show ?thesis using c by metis
qed

lemma create_loop_checked:
  "checked w b (snd s) \<Longrightarrow> checked w b (snd (create_loop w vibe_url pid issues s))"
proof (induction issues arbitrary: s)
  case Nil
  then show ?case by simp
next
  case (Cons i issues)
  have "checked w b (snd (sync_issue w vibe_url pid i s))"
    by (rule sync_issue_checked) (rule Cons.prems)
  then have "checked w b
      (snd (create_loop w vibe_url pid issues (sync_issue w vibe_url pid i s)))"
    by (rule Cons.IH)
  then show ?case by simp
qed

lemma sync_project_checked:
  assumes "checked w b st" and "\<not> shutdown_requested st"
  shows "checked w b (final (sync_project w vibe_url limit project st))"
proof -
  let ?st1 = "act w (FetchIssues (github_repo project) limit) st"
  let ?st2 = "act w (FetchTasks vibe_url (vibe_project_id project)) ?st1"
  have c1: "checked w b ?st1"
    by (rule act_checked [OF assms(1)]) (simp_all add: assms(2))
  have c2: "checked w b ?st2"
    by (rule act_checked [OF c1]) simp_all
  have c3: "checked w b (snd (create_loop w vibe_url (vibe_project_id project) gh_issues
      (sets, ?st2)))" for gh_issues sets
    by (rule create_loop_checked) (simp add: c2)
  show ?thesis
  proof (cases "fetch_github_issues (gh_run w (length (trace st))) (github_repo project) limit")
    case (Inl e)
    then have "final (sync_project w vibe_url limit project st) = ?st1"
      by (simp add: sync_project_def Let_def)
    with c1 show ?thesis by simp
  next
    case (Inr gh_issues)
    note gh = this
    show ?thesis
    proof (cases "fetch_vibe_tasks (http_get w (length (trace ?st1))) vibe_url
        (vibe_project_id project)")
      case (Inl e)
      with gh have "final (sync_project w vibe_url limit project st) = ?st2"
        by (simp add: sync_project_def Let_def)
      with c2 show ?thesis by simp
    next
      case (Inr vibe_tasks)
      with gh have "final (sync_project w vibe_url limit project st) =
          snd (create_loop w vibe_url (vibe_project_id project) gh_issues
            (sync_build_sets vibe_tasks, ?st2))"
        by (simp add: sync_project_def Let_def)
      with c3 show ?thesis by simp
    qed
  qed
qed

lemma sync_projects_checked:
  "checked w b st \<Longrightarrow> checked w b (final (sync_projects w vibe_url limit ps st))"
proof (induction ps arbitrary: st)
  case Nil
  then show ?case by simp
next
  case (Cons p ps)
  show ?case
  proof (cases "shutdown_requested st")
    case True
    with Cons.prems show ?thesis by simp
  next
    case False
    have c: "checked w b (final (sync_project w vibe_url limit p st))"
      by (rule sync_project_checked [OF Cons.prems False])
    show ?thesis
    proof (cases "sync_project w vibe_url limit p st")
      case (Returned st')
      with c have "checked w b st'" by simp
      then have "checked w b (final (sync_projects w vibe_url limit ps st'))"
        by (rule Cons.IH)
      with False Returned show ?thesis by simp
    next
      case (Raised e st')
      with c False show ?thesis by simp
    next
      case (Running st')
      with c False show ?thesis by simp
    qed
  qed
qed

lemma sleep_loop_checked:
  "checked w b st \<Longrightarrow> checked w b (sleep_loop w n st)"
proof (induction n arbitrary: st)
  case 0
  then show ?case by simp
next
  case (Suc n)
  show ?case
  proof (cases "shutdown_requested st")
    case True
    with Suc.prems show ?thesis by simp
  next
    case False
    have "checked w b (act w (Sleep 1) st)"
      by (rule act_checked [OF Suc.prems]) (simp_all add: False)
    then have "checked w b (sleep_loop w n (act w (Sleep 1) st))"
      by (rule Suc.IH)
    with False show ?thesis by simp
  qed
qed

lemma sync_loop_checked:
  "checked w b st \<Longrightarrow>
     checked w b (final (sync_loop fuel w vibe_url sync_interval limit ps once st))"
proof (induction fuel arbitrary: st)
  case 0
  then show ?case by simp
next
  case (Suc fuel)
  show ?case
  proof (cases "shutdown_requested st")
    case True
    with Suc.prems show ?thesis by simp
  next
    case False
    have c: "checked w b (final (sync_projects w vibe_url limit ps st))"
      by (rule sync_projects_checked [OF Suc.prems])
    show ?thesis
    proof (cases "sync_projects w vibe_url limit ps st")
      case (Returned st1)
      with c have c1: "checked w b st1" by simp
      show ?thesis
      proof (cases once)
        case True
        with False Returned c1 show ?thesis by simp
      next
        case once: False
        let ?st2 = "if \<not> shutdown_requested st1 then sleep_loop w (nat sync_interval) st1 else st1"
        have "checked w b ?st2"
          using c1 sleep_loop_checked [OF c1, of "nat sync_interval"] by simp
        then have "checked w b
            (final (sync_loop fuel w vibe_url sync_interval limit ps once ?st2))"
          by (rule Suc.IH)
        with False Returned once show ?thesis by simp
      qed
    next
      case (Raised e st')
      with c False show ?thesis by simp
    next
      case (Running st')
      with c False show ?thesis by simp
    qed
  qed
qed

lemma sleep_loop_trace:
  "\<exists>m\<le>n. trace (sleep_loop w n st) = trace st @ replicate m (Sleep 1) \<and>
          (shutdown_requested st \<longrightarrow> m = 0) \<and>
          (\<not> shutdown_requested st \<and> (\<forall>j. \<not> signal w j) \<longrightarrow> m = n)"
proof (induction n arbitrary: st)
  case 0
  then show ?case by simp
next
  case (Suc n)
  show ?case
  proof (cases "shutdown_requested st")
    case True
    then show ?thesis by simp
  next
    case False
    from Suc.IH [of "act w (Sleep 1) st"] obtain m where
      m: "m \<le> n"
      and tr: "trace (sleep_loop w n (act w (Sleep 1) st)) =
          trace (act w (Sleep 1) st) @ replicate m (Sleep 1)"
      and full: "\<not> shutdown_requested (act w (Sleep 1) st) \<and> (\<forall>j. \<not> signal w j) \<longrightarrow> m = n"
      by blast
    have "trace (sleep_loop w (Suc n) st) = trace st @ replicate (Suc m) (Sleep 1)"
      using False tr by (simp add: act_def)
    moreover have "\<not> shutdown_requested st \<and> (\<forall>j. \<not> signal w j) \<longrightarrow> Suc m = Suc n"
      using full by (simp add: act_def)
    ultimately show ?thesis
      using m False by (intro exI [of _ "Suc m"]) simp
  qed
qed

lemma sync_issue_blind:
  assumes "trace st' = trace st" and "http_post w' = http_post w"
  shows "fst (sync_issue w' vibe_url pid issue (sets, st')) =
           fst (sync_issue w vibe_url pid issue (sets, st)) \<and>
         trace (snd (sync_issue w' vibe_url pid issue (sets, st'))) =
           trace (snd (sync_issue w vibe_url pid issue (sets, st)))"
  using assms by (simp add: sync_issue_def Let_def act_def)

lemma create_loop_blind:
  assumes "trace st' = trace st" and "http_post w' = http_post w"
  shows "fst (create_loop w' vibe_url pid issues (sets, st')) =
           fst (create_loop w vibe_url pid issues (sets, st)) \<and>
         trace (snd (create_loop w' vibe_url pid issues (sets, st'))) =
           trace (snd (create_loop w vibe_url pid issues (sets, st)))"
  using assms(1)
proof (induction issues arbitrary: sets st st')
  case Nil
  then show ?case by simp
next
  case (Cons i issues)
  obtain sets1 st1 where s1: "sync_issue w vibe_url pid i (sets, st) = (sets1, st1)"
    by (cases "sync_issue w vibe_url pid i (sets, st)")
  obtain sets1' st1' where s1': "sync_issue w' vibe_url pid i (sets, st') = (sets1', st1')"
    by (cases "sync_issue w' vibe_url pid i (sets, st')")
  from sync_issue_blind [OF Cons.prems assms(2), of vibe_url pid i sets]
  have "sets1' = sets1" and "trace st1' = trace st1"
    by (simp_all add: s1 s1')
  with Cons.IH [of st1' st1 sets1] show ?case
    by (simp add: s1 s1')
qed

lemma fetch_github_issues_Inr:
  "\<forall>cmd. run cmd \<noteq> RunOSError \<Longrightarrow> \<exists>issues. fetch_github_issues run repo limit = Inr issues"
  by (auto simp: fetch_github_issues_def split: run_result.splits option.splits)

lemma fetch_vibe_tasks_Inr:
  "\<forall>url pid. get url pid \<noteq> GetResponse 200 NonObject \<Longrightarrow>
     \<exists>tasks. fetch_vibe_tasks get api_url project_id = Inr tasks"
  by (auto simp: fetch_vibe_tasks_def split: get_result.splits json_body.splits)

lemma sync_issue_flag:
  "\<forall>k. \<not> signal w k \<Longrightarrow>
     shutdown_requested (snd (sync_issue w vibe_url pid issue s)) = shutdown_requested (snd s)"
  by (simp add: sync_issue_def Let_def act_def)

lemma create_loop_flag:
  "\<forall>k. \<not> signal w k \<Longrightarrow>
     shutdown_requested (snd (create_loop w vibe_url pid issues s)) = shutdown_requested (snd s)"
  by (induction issues arbitrary: s) (simp_all add: sync_issue_flag)

lemma not_duplicate_of_tasks:
  assumes "\<not> sync_is_duplicate (sync_build_sets vibe_tasks) i"
  shows "strip (issue_title i) \<notin>
           {strip title | title. title \<noteq> [] \<and> Some title \<in> task_title ` set vibe_tasks} \<and>
         (\<forall>task \<in> set vibe_tasks. \<forall>content. task_content task = Some content \<longrightarrow>
            issue_url i \<notin> set (findall_github content))"
proof (intro conjI ballI allI impI)
  show "strip (issue_title i) \<notin>
           {strip title | title. title \<noteq> [] \<and> Some title \<in> task_title ` set vibe_tasks}"
    using assms by (simp only: sync_is_duplicate_def sync_build_sets_titles [symmetric]) simp
next
  fix task content
  assume t: "task \<in> set vibe_tasks" and c: "task_content task = Some content"
  show "issue_url i \<notin> set (findall_github content)"
  proof
    assume "issue_url i \<in> set (findall_github content)"
    then have "issue_url i \<in> set (fst (sync_scan_task task ([], [])))"
      by (rule scan_findall [OF c])
    with t have "issue_url i \<in> set (fst (sync_build_sets vibe_tasks))"
      by (auto simp: sync_build_sets_urls)
    with assms show False by (simp add: sync_is_duplicate_def)
  qed
qed

lemma sync_project_pass:
  assumes quiet: "\<forall>k. \<not> signal w k"
    and gh: "\<forall>k cmd. gh_run w k cmd \<noteq> RunOSError"
    and get: "\<forall>k url pid. http_get w k url pid \<noteq> GetResponse 200 NonObject"
  shows "\<exists>evs. sync_project w vibe_url limit project st =
           Returned \<lparr>shutdown_requested = shutdown_requested st, trace = trace st @ evs\<rparr> \<and>
           pass_at w vibe_url limit project (length (trace st)) evs"
proof -
  let ?pid = "vibe_project_id project"
  let ?st1 = "act w (FetchIssues (github_repo project) limit) st"
  let ?st2 = "act w (FetchTasks vibe_url ?pid) ?st1"
  from gh obtain gh_issues where
    i: "fetch_github_issues (gh_run w (length (trace st))) (github_repo project) limit
          = Inr gh_issues"
    using fetch_github_issues_Inr [of "gh_run w (length (trace st))"] by blast
  from get obtain vibe_tasks where
    t: "fetch_vibe_tasks (http_get w (Suc (length (trace st)))) vibe_url ?pid = Inr vibe_tasks"
    using fetch_vibe_tasks_Inr [of "http_get w (Suc (length (trace st)))"] by blast
  let ?sets = "sync_build_sets vibe_tasks"
  let ?s = "create_loop w vibe_url ?pid gh_issues (?sets, ?st2)"
  have r: "sync_project w vibe_url limit project st = Returned (snd ?s)"
    using i t by (simp add: sync_project_def Let_def act_def)
  from create_loop_posted [of w vibe_url ?pid gh_issues ?sets ?st2] obtain posted where
    tr: "trace (snd ?s) = trace ?st2 @ map (post_of vibe_url ?pid) posted"
    and sub: "subseq posted gh_issues"
    and new: "\<forall>i \<in> set posted. \<not> sync_is_duplicate ?sets i"
    and all: "\<forall>i \<in> set gh_issues. \<not> sync_is_duplicate ?sets i \<longrightarrow>
        (\<exists>j \<in> set posted. issue_url j = issue_url i \<or>
                            strip (issue_title j) = strip (issue_title i))"
    by blast
  let ?evs = "[FetchIssues (github_repo project) limit, FetchTasks vibe_url ?pid] @
      map (post_of vibe_url ?pid) posted"
  have fl: "shutdown_requested (snd ?s) = shutdown_requested st"
    using create_loop_flag [OF quiet, of vibe_url ?pid gh_issues "(?sets, ?st2)"] quiet
    by (simp add: act_def)
  have "snd ?s = \<lparr>shutdown_requested = shutdown_requested st, trace = trace st @ ?evs\<rparr>"
    using tr fl by (cases "snd ?s") (simp add: act_def)
  with r have res: "sync_project w vibe_url limit project st =
      Returned \<lparr>shutdown_requested = shutdown_requested st, trace = trace st @ ?evs\<rparr>"
    by simp
  have new': "\<forall>i \<in> set posted.
          \<not> sync_is_duplicate ?sets i \<and>
          strip (issue_title i) \<notin>
            {strip title | title. title \<noteq> [] \<and> Some title \<in> task_title ` set vibe_tasks} \<and>
          (\<forall>task \<in> set vibe_tasks. \<forall>content. task_content task = Some content \<longrightarrow>
             issue_url i \<notin> set (findall_github content))"
    using new not_duplicate_of_tasks [of vibe_tasks] by blast
  have "pass_at w vibe_url limit project (length (trace st)) ?evs"
    using i t sub new' all by blast
  with res show ?thesis by blast
qed

lemma sync_projects_pass:
  assumes quiet: "\<forall>k. \<not> signal w k"
    and gh: "\<forall>k cmd. gh_run w k cmd \<noteq> RunOSError"
    and get: "\<forall>k url pid. http_get w k url pid \<noteq> GetResponse 200 NonObject"
  shows "\<not> shutdown_requested st \<Longrightarrow>
    \<exists>passes. sync_projects w vibe_url limit ps st =
                Returned \<lparr>shutdown_requested = False, trace = trace st @ concat passes\<rparr> \<and>
              length passes = length ps \<and>
              (\<forall>n<length ps.
                 pass_at w vibe_url limit (ps ! n)
                   (length (trace st) + length (concat (take n passes))) (passes ! n))"
proof (induction ps arbitrary: st)
  case Nil
  then have "sync_projects w vibe_url limit [] st =
      Returned \<lparr>shutdown_requested = False, trace = trace st @ concat []\<rparr>"
    by (cases st) simp
  then show ?case by (intro exI [of _ "[]"]) simp
next
  case (Cons p ps)
  from sync_project_pass [OF quiet gh get, of vibe_url limit p st] Cons.prems
  obtain evs where
    r: "sync_project w vibe_url limit p st =
          Returned \<lparr>shutdown_requested = False, trace = trace st @ evs\<rparr>"
    and p: "pass_at w vibe_url limit p (length (trace st)) evs"
    by auto
  let ?st1 = "\<lparr>shutdown_requested = False, trace = trace st @ evs\<rparr>"
  have "\<not> shutdown_requested ?st1" by simp
  from Cons.IH [OF this] obtain passes where
    rest: "sync_projects w vibe_url limit ps ?st1 =
        Returned \<lparr>shutdown_requested = False, trace = trace ?st1 @ concat passes\<rparr>"
    and len: "length passes = length ps"
    and all: "\<forall>n<length ps.
                 pass_at w vibe_url limit (ps ! n)
                   (length (trace ?st1) + length (concat (take n passes))) (passes ! n)"
    by blast
  have 1: "sync_projects w vibe_url limit (p # ps) st =
      Returned \<lparr>shutdown_requested = False, trace = trace st @ concat (evs # passes)\<rparr>"
    using Cons.prems r rest by simp
  have 2: "length (evs # passes) = length (p # ps)"
    using len by simp
  have 3: "\<forall>n<length (p # ps).
                 pass_at w vibe_url limit ((p # ps) ! n)
                   (length (trace st) + length (concat (take n (evs # passes))))
                   ((evs # passes) ! n)"
  proof (intro allI impI)
    fix n assume n: "n < length (p # ps)"
    show "pass_at w vibe_url limit ((p # ps) ! n)
                   (length (trace st) + length (concat (take n (evs # passes))))
                   ((evs # passes) ! n)"
    proof (cases n)
      case 0
      with p show ?thesis by simp
    next
      case (Suc m)
      with n have "m < length ps" by simp
      with all have m: "pass_at w vibe_url limit (ps ! m)
                   (length (trace ?st1) + length (concat (take m passes))) (passes ! m)"
        by blast
      have eq: "length (trace st) + length (concat (take n (evs # passes))) =
          length (trace ?st1) + length (concat (take m passes))"
        using Suc by simp
      have nth: "(p # ps) ! n = ps ! m" "(evs # passes) ! n = passes ! m"
        using Suc by simp_all
      from m show ?thesis
        unfolding eq nth .
    qed
  qed
  from 1 2 3 show ?case by blast
qed

lemma sleep_loop_stopped: "shutdown_requested st \<Longrightarrow> sleep_loop w n st = st"
  by (cases n) simp_all

lemma sleep_loop_exact:
  "\<not> shutdown_requested st \<Longrightarrow>
     \<exists>m\<le>n. trace (sleep_loop w n st) = trace st @ replicate m (Sleep 1) \<and>
            (\<forall>j. Suc j < m \<longrightarrow> \<not> signal w (length (trace st) + j)) \<and>
            (m < n \<longrightarrow> 0 < m \<and> signal w (length (trace st) + (m - 1))) \<and>
            (shutdown_requested (sleep_loop w n st) \<longleftrightarrow>
               0 < m \<and> signal w (length (trace st) + (m - 1)))"
proof (induction n arbitrary: st)
  case 0
  then show ?case by simp
next
  case (Suc n)
  define st' where "st' = act w (Sleep 1) st"
  have step: "sleep_loop w (Suc n) st = sleep_loop w n st'"
    using Suc.prems by (simp add: st'_def)
  have tr': "trace st' = trace st @ [Sleep 1]"
    by (simp add: st'_def act_def)
  have fl': "shutdown_requested st' = signal w (length (trace st))"
    using Suc.prems by (simp add: st'_def act_def)
  have len: "length (trace st') = Suc (length (trace st))"
    by (simp add: tr')
  show ?case
  proof (cases "signal w (length (trace st))")
    case True
    then have "shutdown_requested st'"
      by (simp add: fl')
    then have "sleep_loop w n st' = st'"
      by (rule sleep_loop_stopped)
    then have res: "sleep_loop w (Suc n) st = st'"
      by (simp only: step)
    have "trace (sleep_loop w (Suc n) st) = trace st @ replicate 1 (Sleep 1)"
      by (simp only: res tr') simp
    moreover have "shutdown_requested (sleep_loop w (Suc n) st)"
      using True by (simp only: res fl')
    ultimately show ?thesis
      using True by (intro exI [of _ 1]) simp
  next
    case False
    then have "\<not> shutdown_requested st'" by (simp add: fl')
    from Suc.IH [OF this] obtain m where
      m: "m \<le> n"
      and tr: "trace (sleep_loop w n st') = trace st' @ replicate m (Sleep 1)"
      and quiet: "\<forall>j. Suc j < m \<longrightarrow> \<not> signal w (length (trace st') + j)"
      and early: "m < n \<longrightarrow> 0 < m \<and> signal w (length (trace st') + (m - 1))"
      and flag: "shutdown_requested (sleep_loop w n st') \<longleftrightarrow>
               0 < m \<and> signal w (length (trace st') + (m - 1))"
      by blast
    have 1: "trace (sleep_loop w (Suc n) st) = trace st @ replicate (Suc m) (Sleep 1)"
      by (simp only: step tr tr') simp
    have 2: "\<forall>j. Suc j < Suc m \<longrightarrow> \<not> signal w (length (trace st) + j)"
    proof (intro allI impI)
      fix j assume j: "Suc j < Suc m"
      show "\<not> signal w (length (trace st) + j)"
      proof (cases j)
        case 0
        with False show ?thesis by simp
      next
        case (Suc i)
        with j have "Suc i < m" by simp
        with quiet have "\<not> signal w (length (trace st') + i)" by blast
        then show ?thesis by (simp add: len Suc)
      qed
    qed
    have last: "0 < m \<Longrightarrow> length (trace st') + (m - 1) = length (trace st) + (Suc m - 1)"
      by (simp add: len)
    have 3: "Suc m < Suc n \<longrightarrow> 0 < Suc m \<and> signal w (length (trace st) + (Suc m - 1))"
      using early last by auto
    have 4: "shutdown_requested (sleep_loop w (Suc n) st) \<longleftrightarrow>
               0 < Suc m \<and> signal w (length (trace st) + (Suc m - 1))"
    proof (cases "0 < m")
      case True
      with flag last show ?thesis by (simp only: step) simp
    next
      case m0: False
      with flag have "\<not> shutdown_requested (sleep_loop w n st')" by simp
      with m0 False show ?thesis by (simp only: step) simp
    qed
    from m 1 2 3 4 show ?thesis
      by (intro exI [of _ "Suc m"]) simp
  qed
qed

lemma run_sync_round:
  assumes "\<not> shutdown_requested st0"
    and "sync_projects w vibe_url (case issue_limit cfg of None \<Rightarrow> 100 | Some n \<Rightarrow> n)
           (case projects cfg of None \<Rightarrow> [] | Some ps \<Rightarrow> ps) st0 = Returned st1"
    and "\<not> shutdown_requested st1"
  shows "\<exists>m st2.
           m \<le> nat (case sync_interval_seconds cfg of None \<Rightarrow> 60 | Some n \<Rightarrow> n) \<and>
           trace st2 = trace st1 @ replicate m (Sleep 1) \<and>
           run_sync (Suc fuel) w vibe_url cfg False st0 = run_sync fuel w vibe_url cfg False st2 \<and>
           (\<forall>j. Suc j < m \<longrightarrow> \<not> signal w (length (trace st1) + j)) \<and>
           (m < nat (case sync_interval_seconds cfg of None \<Rightarrow> 60 | Some n \<Rightarrow> n) \<longrightarrow>
              0 < m \<and> signal w (length (trace st1) + (m - 1))) \<and>
           (shutdown_requested st2 \<longleftrightarrow> 0 < m \<and> signal w (length (trace st1) + (m - 1)))"
proof -
  let ?n = "nat (case sync_interval_seconds cfg of None \<Rightarrow> 60 | Some n \<Rightarrow> n)"
  let ?st2 = "sleep_loop w ?n st1"
  have "run_sync (Suc fuel) w vibe_url cfg False st0 = run_sync fuel w vibe_url cfg False ?st2"
    using assms by (simp add: run_sync_def Let_def)
  with sleep_loop_exact [OF assms(3), of ?n w] show ?thesis
    by blast
qed

section \<open>The duplicate test\<close>

text \<open>
  C1, as the code has it.  Against the sets built from the tasks of the board, an issue is
  classified as a duplicate exactly when its URL is in the URL set or its trimmed title is
  the trimmed title of a task whose title is not empty; \<open>run_sync\<close> adds a title to the
  title set only under \<open>if title:\<close>.  Such an issue is skipped wherever it stands in the
  list of issues: handling it leaves the sets and the list of calls as they were, so
  \<open>create_vibe_task\<close> is not called for it.  Conversely an issue that is not a duplicate of
  the sets in force gets exactly one call of \<open>create_vibe_task\<close>.
\<close>

theorem duplicate_iff_url_or_title:
  "(sync_is_duplicate (sync_build_sets vibe_tasks) issue \<longleftrightarrow>
      issue_url issue \<in> set (fst (sync_build_sets vibe_tasks)) \<or>
      strip (issue_title issue) \<in>
        {strip title | title. title \<noteq> [] \<and> Some title \<in> task_title ` set vibe_tasks}) \<and>
   (sync_is_duplicate (sync_build_sets vibe_tasks) issue \<longrightarrow>
      sync_issue w vibe_url pid issue
          (create_loop w vibe_url pid earlier (sync_build_sets vibe_tasks, st)) =
        create_loop w vibe_url pid earlier (sync_build_sets vibe_tasks, st)) \<and>
   (\<not> sync_is_duplicate sets issue \<longrightarrow>
      trace (snd (sync_issue w vibe_url pid issue (sets, st))) =
        trace st @ [CreateTask vibe_url pid (issue_title issue) (new_task_content issue)])"
proof (intro conjI impI)
  show "sync_is_duplicate (sync_build_sets vibe_tasks) issue \<longleftrightarrow>
      issue_url issue \<in> set (fst (sync_build_sets vibe_tasks)) \<or>
      strip (issue_title issue) \<in>
        {strip title | title. title \<noteq> [] \<and> Some title \<in> task_title ` set vibe_tasks}"
    by (simp only: sync_is_duplicate_def sync_build_sets_titles)
next
  assume dup: "sync_is_duplicate (sync_build_sets vibe_tasks) issue"
  let ?s = "create_loop w vibe_url pid earlier (sync_build_sets vibe_tasks, st)"
  from create_loop_mono [of "(sync_build_sets vibe_tasks, st)" w vibe_url pid earlier]
  have "sync_is_duplicate (fst ?s) issue"
    using dup by (auto intro: sync_is_duplicate_mono)
  then show "sync_issue w vibe_url pid issue ?s = ?s"
    by (rule sync_issue_duplicate)
next
  assume "\<not> sync_is_duplicate sets issue"
  then show "trace (snd (sync_issue w vibe_url pid issue (sets, st))) =
        trace st @ [CreateTask vibe_url pid (issue_title issue) (new_task_content issue)]"
    by (simp add: sync_issue_new act_def)
qed

text \<open>
  The scenario of the specification: the task made for issue 5 is on the board, and issue 5
  is skipped; against empty sets the same issue is created.
\<close>

theorem duplicate_iff_url_or_title_witness:
  "sync_is_duplicate (sync_build_sets [task5]) issue5 \<and>
   sync_issue quiet_world (str ''http://localhost:3000'') (str ''p1'') issue5
       (sync_build_sets [task5], start) = (sync_build_sets [task5], start) \<and>
   \<not> sync_is_duplicate ([], []) issue5 \<and>
   trace (snd (sync_issue quiet_world (str ''http://localhost:3000'') (str ''p1'') issue5
       (([], []), start))) =
     [CreateTask (str ''http://localhost:3000'') (str ''p1'') (str ''fix bug'')
        (new_task_content issue5)]"
proof -
  have d: "sync_is_duplicate (sync_build_sets [task5]) issue5"
    by code_simp
  have n: "\<not> sync_is_duplicate ([], []) issue5"
    by (simp add: sync_is_duplicate_def)
  show ?thesis
    using duplicate_iff_url_or_title [where vibe_tasks = "[task5]" and issue = issue5
        and w = quiet_world and vibe_url = "str ''http://localhost:3000''" and pid = "str ''p1''"
        and earlier = "[]" and st = start and sets = "([], [])"] d n
    by simp
qed

text \<open>
  C1 as stated, with the title set holding the trimmed title of every task, fails on a
  task whose title is empty: an issue whose title is blank has the same trimmed title as
  that task, and still it is not classified as a duplicate and a task is created for it.
\<close>

theorem trimmed_title_set_counterexample:
  "strip (issue_title blank_issue) = strip (the (task_title untitled_task)) \<and>
   \<not> sync_is_duplicate (sync_build_sets [untitled_task]) blank_issue \<and>
   trace (snd (sync_issue quiet_world (str ''http://localhost:3000'') (str ''p1'') blank_issue
       (sync_build_sets [untitled_task], start))) =
     [CreateTask (str ''http://localhost:3000'') (str ''p1'') (str ''  '')
        (new_task_content blank_issue)]"
  by code_simp

section \<open>What the URL set holds\<close>

text \<open>
  C2, as the code has it.  Take a task of the board and its content.  If the content reads
  \<open>pre @ marker @ line @ rest\<close>, where this is the first place the marker
  \<open>"Original Issue: "\<close> stands, \<open>line\<close> has no line break and \<open>rest\<close> is empty or begins
  with one, and \<open>line\<close> stripped is not empty, then the stripped \<open>line\<close> is a member of the
  URL set that \<open>run_sync\<close> builds.  Every match of the regular expression in the content is
  a member too.  The set holds each of them exactly once.
\<close>

theorem marker_and_regex_urls_in_set:
  assumes "task \<in> set vibe_tasks" and "task_content task = Some content"
  shows "(\<forall>pre line rest.
            content = pre @ marker @ line @ rest \<and>
            (\<forall>i<length pre. \<not> prefix marker (drop i content)) \<and>
            10 \<notin> set line \<and> (rest = [] \<or> hd rest = 10) \<and> strip line \<noteq> [] \<longrightarrow>
            strip line \<in> set (fst (sync_build_sets vibe_tasks)) \<and>
            count_list (fst (sync_build_sets vibe_tasks)) (strip line) = 1) \<and>
         (\<forall>u \<in> set (findall_github content).
            u \<in> set (fst (sync_build_sets vibe_tasks)) \<and>
            count_list (fst (sync_build_sets vibe_tasks)) u = 1)"
proof (intro conjI allI impI ballI)
  fix pre line rest
  assume h: "content = pre @ marker @ line @ rest \<and>
            (\<forall>i<length pre. \<not> prefix marker (drop i content)) \<and>
            10 \<notin> set line \<and> (rest = [] \<or> hd rest = 10) \<and> strip line \<noteq> []"
  then have "strip line \<in> set (fst (sync_scan_task task ([], [])))"
    using scan_marker_line [OF assms(2), of pre line rest] by blast
  then show "strip line \<in> set (fst (sync_build_sets vibe_tasks))"
    using assms(1) by (auto simp: sync_build_sets_urls)
  then show "count_list (fst (sync_build_sets vibe_tasks)) (strip line) = 1"
    by (simp add: count_list_distinct sync_build_sets_distinct)
next
  fix u
  assume "u \<in> set (findall_github content)"
  then have "u \<in> set (fst (sync_scan_task task ([], [])))"
    by (rule scan_findall [OF assms(2)])
  then show "u \<in> set (fst (sync_build_sets vibe_tasks))"
    using assms(1) by (auto simp: sync_build_sets_urls)
  then show "count_list (fst (sync_build_sets vibe_tasks)) u = 1"
    by (simp add: count_list_distinct sync_build_sets_distinct)
qed

text \<open>
  The task made for issue 5: the marker line and the regular expression both give the
  URL of the issue, and the set holds it once.
\<close>

theorem marker_and_regex_urls_in_set_witness:
  "issue5_url \<in> set (fst (sync_build_sets [task5])) \<and>
   count_list (fst (sync_build_sets [task5])) issue5_url = 1 \<and>
   findall_github (str ''fix bug'' @ newline @ newline @ marker @ issue5_url) = [issue5_url]"
proof -
  let ?content = "str ''fix bug'' @ newline @ newline @ marker @ issue5_url"
  let ?pre = "str ''fix bug'' @ newline @ newline"
  have found: "find_sub marker ?content = Some (length ?pre)"
    by code_simp
  have first: "\<forall>i<length ?pre. \<not> prefix marker (drop i ?content)"
    using find_sub_Some [OF found] by blast
  have line: "10 \<notin> set issue5_url"
    by code_simp
  have url: "strip issue5_url = issue5_url"
    by code_simp
  have regex: "findall_github ?content = [issue5_url]"
    by code_simp
  have "task5 \<in> set [task5]" and "task_content task5 = Some ?content"
    by simp_all
  from marker_and_regex_urls_in_set [OF this]
  have "\<forall>pre line rest.
            ?content = pre @ marker @ line @ rest \<and>
            (\<forall>i<length pre. \<not> prefix marker (drop i ?content)) \<and>
            10 \<notin> set line \<and> (rest = [] \<or> hd rest = 10) \<and> strip line \<noteq> [] \<longrightarrow>
            strip line \<in> set (fst (sync_build_sets [task5])) \<and>
            count_list (fst (sync_build_sets [task5])) (strip line) = 1"
    by blast
  then have "?content = ?pre @ marker @ issue5_url @ [] \<and>
            (\<forall>i<length ?pre. \<not> prefix marker (drop i ?content)) \<and>
            10 \<notin> set issue5_url \<and> ([] = [] \<or> hd [] = (10::int)) \<and> strip issue5_url \<noteq> [] \<longrightarrow>
            strip issue5_url \<in> set (fst (sync_build_sets [task5])) \<and>
            count_list (fst (sync_build_sets [task5])) (strip issue5_url) = 1"
    by blast
  moreover have "strip issue5_url \<noteq> []"
    unfolding url by (simp add: str_def)
  ultimately have "strip issue5_url \<in> set (fst (sync_build_sets [task5])) \<and>
            count_list (fst (sync_build_sets [task5])) (strip issue5_url) = 1"
    using first line by simp
  then show ?thesis
    using regex by (simp only: url)
qed

text \<open>
  C2 as stated, for any place where the marker stands, fails on a content that has the
  marker twice: \<open>content.find\<close> takes the first one, here followed by nothing, and the
  URL after the second one, which is not on \<open>github.com\<close>, is not in the set.
\<close>

theorem later_marker_counterexample:
  "task_content twice_marked = Some ((marker @ newline) @ marker @ enterprise_url @ []) \<and>
   strip enterprise_url = enterprise_url \<and>
   enterprise_url \<notin> set (fst (sync_build_sets [twice_marked])) \<and>
   fst (sync_build_sets [twice_marked]) = []"
  by code_simp

section \<open>Issues created or failed within one cycle\<close>

text \<open>
  C3.  When an issue \<open>x\<close> that is no duplicate is handled and \<open>create_vibe_task\<close> returns
  \<open>True\<close>, its URL is in the URL set and its trimmed title in the title set right after.
  Whatever issues are handled in between, a later issue with the same URL or the same
  trimmed title is then classified as a duplicate and skipped.  The loop over the issues
  makes POST calls only: the tasks are not fetched again.
\<close>

theorem created_issue_joins_sets:
  assumes "\<not> sync_is_duplicate sets x"
    and "create_vibe_task (http_post w (length (trace st))) vibe_url pid
           (issue_title x) (new_task_content x)"
  shows "issue_url x \<in> set (fst (fst (sync_issue w vibe_url pid x (sets, st)))) \<and>
         strip (issue_title x) \<in> set (snd (fst (sync_issue w vibe_url pid x (sets, st)))) \<and>
         (\<forall>between y.
            issue_url y = issue_url x \<or> strip (issue_title y) = strip (issue_title x) \<longrightarrow>
            sync_is_duplicate
              (fst (create_loop w vibe_url pid between (sync_issue w vibe_url pid x (sets, st)))) y \<and>
            sync_issue w vibe_url pid y
              (create_loop w vibe_url pid between (sync_issue w vibe_url pid x (sets, st))) =
              create_loop w vibe_url pid between (sync_issue w vibe_url pid x (sets, st))) \<and>
         (\<forall>later. \<exists>evs.
            trace (snd (create_loop w vibe_url pid later (sync_issue w vibe_url pid x (sets, st)))) =
              trace st @ CreateTask vibe_url pid (issue_title x) (new_task_content x) # evs \<and>
            (\<forall>e \<in> set evs. \<exists>t c. e = CreateTask vibe_url pid t c))"
proof -
  let ?s1 = "sync_issue w vibe_url pid x (sets, st)"
  have s1: "?s1 = ((set_add (issue_url x) (fst sets), set_add (strip (issue_title x)) (snd sets)),
      act w (CreateTask vibe_url pid (issue_title x) (new_task_content x)) st)"
    using assms by (simp add: sync_issue_new)
  have url: "issue_url x \<in> set (fst (fst ?s1))"
    and title: "strip (issue_title x) \<in> set (snd (fst ?s1))"
    by (simp_all add: s1 set_set_add)
  have later: "sync_is_duplicate (fst (create_loop w vibe_url pid between ?s1)) y \<and>
      sync_issue w vibe_url pid y (create_loop w vibe_url pid between ?s1) =
        create_loop w vibe_url pid between ?s1"
    if y: "issue_url y = issue_url x \<or> strip (issue_title y) = strip (issue_title x)"
    for between y
  proof -
    have "sync_is_duplicate (fst ?s1) y"
      using y url title by (auto simp: sync_is_duplicate_def)
    then have "sync_is_duplicate (fst (create_loop w vibe_url pid between ?s1)) y"
      using create_loop_mono [of ?s1 w vibe_url pid between]
      by (auto intro: sync_is_duplicate_mono)
    then show ?thesis
      by (simp add: sync_issue_duplicate)
  qed
  have events: "\<exists>evs.
      trace (snd (create_loop w vibe_url pid later ?s1)) =
        trace st @ CreateTask vibe_url pid (issue_title x) (new_task_content x) # evs \<and>
      (\<forall>e \<in> set evs. \<exists>t c. e = CreateTask vibe_url pid t c)" for later
  proof -
    from create_loop_trace [of w vibe_url pid later ?s1] obtain evs where
      "trace (snd (create_loop w vibe_url pid later ?s1)) = trace (snd ?s1) @ evs"
      and "\<forall>e \<in> set evs. \<exists>t c. e = CreateTask vibe_url pid t c" by blast
    moreover have "trace (snd ?s1) =
        trace st @ [CreateTask vibe_url pid (issue_title x) (new_task_content x)]"
      by (simp add: s1 act_def)
    ultimately show ?thesis by simp
  qed
  from url title later events show ?thesis by blast
qed

text \<open>
  Issue 5 is created; issue 6, which has its title with blanks around it, and issue 5
  again are skipped: one POST in all.
\<close>

theorem created_issue_joins_sets_witness:
  "issue_url issue5 \<in> set (fst (fst (sync_issue quiet_world board (str ''p1'') issue5 (([], []), start)))) \<and>
   strip (issue_title issue5)
     \<in> set (snd (fst (sync_issue quiet_world board (str ''p1'') issue5 (([], []), start)))) \<and>
   sync_is_duplicate
     (fst (create_loop quiet_world board (str ''p1'') []
        (sync_issue quiet_world board (str ''p1'') issue5 (([], []), start)))) issue6 \<and>
   create_loop quiet_world board (str ''p1'') [issue5, issue6, issue5] (([], []), start) =
     (([issue5_url], [str ''fix bug'']),
      \<lparr>shutdown_requested = False,
       trace = [CreateTask board (str ''p1'') (str ''fix bug'') (new_task_content issue5)]\<rparr>)"
proof -
  have fresh: "\<not> sync_is_duplicate ([], []) issue5"
    by (simp add: sync_is_duplicate_def)
  have ok: "create_vibe_task (http_post quiet_world (length (trace start))) board (str ''p1'')
      (issue_title issue5) (new_task_content issue5)"
    by (simp add: create_vibe_task_def)
  have same: "issue_url issue6 = issue_url issue5 \<or>
      strip (issue_title issue6) = strip (issue_title issue5)"
    by code_simp
  have run: "create_loop quiet_world board (str ''p1'') [issue5, issue6, issue5] (([], []), start) =
     (([issue5_url], [str ''fix bug'']),
      \<lparr>shutdown_requested = False,
       trace = [CreateTask board (str ''p1'') (str ''fix bug'') (new_task_content issue5)]\<rparr>)"
    by code_simp
  from created_issue_joins_sets [OF fresh ok] same run show ?thesis
    by blast
qed

text \<open>
  C9.  When an issue \<open>x\<close> that is no duplicate is handled and \<open>create_vibe_task\<close> returns
  \<open>False\<close>, both sets are what they were, so every issue is classified after the failure
  as it was before it.  An issue with the URL or the trimmed title of \<open>x\<close> that was no
  duplicate before the failure is none after it: handled next, it gets its own call of
  \<open>create_vibe_task\<close>.
\<close>

theorem failed_create_leaves_sets:
  assumes "\<not> sync_is_duplicate sets x"
    and "\<not> create_vibe_task (http_post w (length (trace st))) vibe_url pid
           (issue_title x) (new_task_content x)"
  shows "fst (sync_issue w vibe_url pid x (sets, st)) = sets \<and>
         (\<forall>y. sync_is_duplicate (fst (sync_issue w vibe_url pid x (sets, st))) y =
               sync_is_duplicate sets y) \<and>
         (\<forall>y. (issue_url y = issue_url x \<or> strip (issue_title y) = strip (issue_title x)) \<and>
               \<not> sync_is_duplicate sets y \<longrightarrow>
               trace (snd (sync_issue w vibe_url pid y (sync_issue w vibe_url pid x (sets, st)))) =
                 trace st @ [CreateTask vibe_url pid (issue_title x) (new_task_content x),
                             CreateTask vibe_url pid (issue_title y) (new_task_content y)])"
proof -
  have s1: "sync_issue w vibe_url pid x (sets, st) =
      (sets, act w (CreateTask vibe_url pid (issue_title x) (new_task_content x)) st)"
    using assms by (simp add: sync_issue_new)
  have "trace (snd (sync_issue w vibe_url pid y (sync_issue w vibe_url pid x (sets, st)))) =
      trace st @ [CreateTask vibe_url pid (issue_title x) (new_task_content x),
                  CreateTask vibe_url pid (issue_title y) (new_task_content y)]"
    if "\<not> sync_is_duplicate sets y" for y
    using that by (simp add: s1 sync_issue_new act_def)
  then show ?thesis
    by (simp add: s1)
qed

text \<open>
  The first POST is answered with status 500: the sets stay empty and issue 5, listed
  again, is posted again; that second POST succeeds and a third listing is skipped.
\<close>

theorem failed_create_leaves_sets_witness:
  "fst (sync_issue flaky_world board (str ''p1'') issue5 (([], []), start)) = ([], []) \<and>
   trace (snd (sync_issue flaky_world board (str ''p1'') issue5
       (sync_issue flaky_world board (str ''p1'') issue5 (([], []), start)))) =
     [CreateTask board (str ''p1'') (str ''fix bug'') (new_task_content issue5),
      CreateTask board (str ''p1'') (str ''fix bug'') (new_task_content issue5)] \<and>
   fst (create_loop flaky_world board (str ''p1'') [issue5, issue5, issue5] (([], []), start)) =
     ([issue5_url], [str ''fix bug''])"
proof -
  have fresh: "\<not> sync_is_duplicate ([], []) issue5"
    by (simp add: sync_is_duplicate_def)
  have failed: "\<not> create_vibe_task (http_post flaky_world (length (trace start))) board (str ''p1'')
      (issue_title issue5) (new_task_content issue5)"
    by (simp add: create_vibe_task_def)
  have run: "fst (create_loop flaky_world board (str ''p1'') [issue5, issue5, issue5]
      (([], []), start)) = ([issue5_url], [str ''fix bug''])"
    by code_simp
  from failed_create_leaves_sets [OF fresh failed] fresh run show ?thesis
    by simp
qed

section \<open>The dry run\<close>

text \<open>
  C10.  \<open>dry_run\<close> builds the same two sets from the tasks as \<open>run_sync\<close> does, and the
  issues it reports as new are exactly the issues of the list, in their order, that the
  duplicate test of \<open>run_sync\<close> rejects against those sets, that is before any task has
  been created.  The POSTs that \<open>run_sync\<close> makes for the same tasks and issues are for
  issues of that report, in its order; they are all of them when no POST succeeds, so that
  the sets stay as they were built.
\<close>

theorem dry_run_same_classification:
  "dry_run_build_sets vibe_tasks = sync_build_sets vibe_tasks \<and>
   dry_run_new_issues (dry_run_build_sets vibe_tasks) gh_issues =
     filter (\<lambda>issue. \<not> sync_is_duplicate (sync_build_sets vibe_tasks) issue) gh_issues \<and>
   (\<exists>posts.
      trace (snd (create_loop w vibe_url pid gh_issues (sync_build_sets vibe_tasks, st))) =
        trace st @ posts \<and>
      subseq posts (map (post_of vibe_url pid)
                      (dry_run_new_issues (dry_run_build_sets vibe_tasks) gh_issues)) \<and>
      ((\<forall>k url p status. http_post w k url p = PostResponse status
           \<longrightarrow> status \<noteq> 200 \<and> status \<noteq> 201)
       \<longrightarrow> posts = map (post_of vibe_url pid)
                      (dry_run_new_issues (dry_run_build_sets vibe_tasks) gh_issues)))"
proof -
  have scan: "dry_run_scan_task = sync_scan_task"
    by (intro ext) (simp add: dry_run_scan_task_def sync_scan_task_def Let_def)
  have sets: "dry_run_build_sets vibe_tasks = sync_build_sets vibe_tasks"
    by (simp add: dry_run_build_sets_def sync_build_sets_def scan)
  have new: "dry_run_new_issues sets gh_issues =
      filter (\<lambda>issue. \<not> sync_is_duplicate sets issue) gh_issues" for sets
    by (induction gh_issues) (simp_all add: sync_is_duplicate_def Let_def)
  let ?sets = "sync_build_sets vibe_tasks"
  let ?new = "map (post_of vibe_url pid) (filter (\<lambda>issue. \<not> sync_is_duplicate ?sets issue) gh_issues)"
  from create_loop_posts_subseq [of ?sets ?sets w vibe_url pid gh_issues st] obtain posts where
    tr: "trace (snd (create_loop w vibe_url pid gh_issues (?sets, st))) = trace st @ posts"
    and sub: "subseq posts ?new"
    by auto
  have "posts = ?new"
    if "\<forall>k url p status. http_post w k url p = PostResponse status
           \<longrightarrow> status \<noteq> 200 \<and> status \<noteq> 201"
  proof -
    have "trace (snd (create_loop w vibe_url pid gh_issues (?sets, st))) = trace st @ ?new"
      by (subst create_loop_posts_all_failed [OF that]) simp
    with tr show ?thesis by simp
  qed
  with tr sub show ?thesis
    unfolding sets new by blast
qed

text \<open>
  Issue 5 and issue 6 are duplicates of the task on the board and the blank issue is
  listed twice: the dry run reports it twice, \<open>run_sync\<close> posts it twice when the board
  times out and once when the first POST succeeds.
\<close>

theorem dry_run_same_classification_witness:
  "dry_run_new_issues (dry_run_build_sets [task5]) [issue5, blank_issue, issue6, blank_issue] =
     [blank_issue, blank_issue] \<and>
   trace (snd (create_loop down_world board (str ''p1'') [issue5, blank_issue, issue6, blank_issue]
     (sync_build_sets [task5], start))) =
     [post_of board (str ''p1'') blank_issue, post_of board (str ''p1'') blank_issue] \<and>
   trace (snd (create_loop quiet_world board (str ''p1'') [issue5, blank_issue, issue6, blank_issue]
     (sync_build_sets [task5], start))) =
     [post_of board (str ''p1'') blank_issue]"
proof -
  have dry: "dry_run_new_issues (dry_run_build_sets [task5])
      [issue5, blank_issue, issue6, blank_issue] = [blank_issue, blank_issue]"
    by code_simp
  have down: "\<forall>k url p status. http_post down_world k url p = PostResponse status
           \<longrightarrow> status \<noteq> 200 \<and> status \<noteq> 201"
    by simp
  have quiet: "trace (snd (create_loop quiet_world board (str ''p1'')
      [issue5, blank_issue, issue6, blank_issue] (sync_build_sets [task5], start))) =
     [post_of board (str ''p1'') blank_issue]"
    by code_simp
  from dry_run_same_classification [where vibe_tasks = "[task5]"
      and gh_issues = "[issue5, blank_issue, issue6, blank_issue]" and w = down_world
      and vibe_url = board and pid = "str ''p1''" and st = start] down
  have "trace (snd (create_loop down_world board (str ''p1'')
      [issue5, blank_issue, issue6, blank_issue] (sync_build_sets [task5], start))) =
     trace start @ map (post_of board (str ''p1''))
       (dry_run_new_issues (dry_run_build_sets [task5]) [issue5, blank_issue, issue6, blank_issue])"
    by blast
  with dry quiet show ?thesis by simp
qed

section \<open>One pass and the shutdown flag\<close>

text \<open>
  C7, as the code has it.  Let the flag be unset when \<open>run_sync\<close> is entered in run-once
  mode, let no signal arrive, and let no call end in an exception that the clients do not
  handle.  Then \<open>run_sync\<close> returns after one round of its outer loop, and the calls it
  made are one pass per configured mapping, in the order of the configuration: the issues
  of the mapping are fetched, its tasks are fetched, and tasks are posted for fetched
  issues only, in the order of the list.  Each posted issue is no duplicate of the tasks
  fetched for that mapping, and each fetched issue that is no duplicate of them has a POST
  of its own or shares its URL or trimmed title with a posted issue.  No sleep is among
  the calls.  With two mappings and no issues that is two fetches each, and the function
  returns.
\<close>

theorem once_runs_one_pass:
  assumes "\<not> shutdown_requested st"
    and "\<forall>k. \<not> signal w k"
    and "\<forall>k cmd. gh_run w k cmd \<noteq> RunOSError"
    and "\<forall>k url pid. http_get w k url pid \<noteq> GetResponse 200 NonObject"
  shows "\<exists>passes.
           run_sync (Suc fuel) w vibe_url cfg True st =
             Returned \<lparr>shutdown_requested = False, trace = trace st @ concat passes\<rparr> \<and>
           length passes = length (case projects cfg of None \<Rightarrow> [] | Some ps \<Rightarrow> ps) \<and>
           (\<forall>n<length passes.
              pass_at w vibe_url (case issue_limit cfg of None \<Rightarrow> 100 | Some n \<Rightarrow> n)
                ((case projects cfg of None \<Rightarrow> [] | Some ps \<Rightarrow> ps) ! n)
                (length (trace st) + length (concat (take n passes))) (passes ! n)) \<and>
           (\<forall>n. Sleep n \<notin> set (concat passes))"
proof -
  let ?limit = "case issue_limit cfg of None \<Rightarrow> 100 | Some n \<Rightarrow> n"
  let ?ps = "case projects cfg of None \<Rightarrow> [] | Some ps \<Rightarrow> ps"
  from sync_projects_pass [OF assms(2,3,4,1), of vibe_url ?limit ?ps] obtain passes where
    r: "sync_projects w vibe_url ?limit ?ps st =
          Returned \<lparr>shutdown_requested = False, trace = trace st @ concat passes\<rparr>"
    and len: "length passes = length ?ps"
    and all: "\<forall>n<length ?ps.
                 pass_at w vibe_url ?limit (?ps ! n)
                   (length (trace st) + length (concat (take n passes))) (passes ! n)"
    by blast
  have run: "run_sync (Suc fuel) w vibe_url cfg True st =
      Returned \<lparr>shutdown_requested = False, trace = trace st @ concat passes\<rparr>"
    using assms(1) r by (simp add: run_sync_def)
  have "\<forall>evs \<in> set passes. \<forall>n. Sleep n \<notin> set evs"
  proof
    fix evs assume "evs \<in> set passes"
    then obtain n where "n < length passes" and "evs = passes ! n"
      by (auto simp: in_set_conv_nth)
    with all len have "pass_at w vibe_url ?limit (?ps ! n)
        (length (trace st) + length (concat (take n passes))) evs"
      by simp
    then show "\<forall>n. Sleep n \<notin> set evs" by auto
  qed
  then have "\<forall>n. Sleep n \<notin> set (concat passes)" by auto
  with run len all show ?thesis by auto
qed

text \<open>
  Two mappings.  When the first lists issue 5, which is on the board, and the blank issue
  twice, one task is posted; when neither lists an issue, there are four fetches.  Both
  times the function returns.
\<close>

theorem once_runs_one_pass_witness:
  "(\<exists>passes.
      run_sync (Suc 0) busy_world board two_mappings True start =
        Returned \<lparr>shutdown_requested = False, trace = trace start @ concat passes\<rparr> \<and>
      length passes = length [project1, project2] \<and>
      (\<forall>n<length passes.
         pass_at busy_world board 100 ([project1, project2] ! n)
           (length (trace start) + length (concat (take n passes))) (passes ! n)) \<and>
      (\<forall>n. Sleep n \<notin> set (concat passes))) \<and>
   run_sync (Suc 0) busy_world board two_mappings True start =
     Returned \<lparr>shutdown_requested = False,
               trace = [FetchIssues (str ''o/r'') 100, FetchTasks board (str ''p1''),
                        post_of board (str ''p1'') blank_issue,
                        FetchIssues (str ''o/s'') 100, FetchTasks board (str ''p2'')]\<rparr> \<and>
   run_sync (Suc 0) quiet_world board two_mappings True start =
     Returned \<lparr>shutdown_requested = False,
               trace = [FetchIssues (str ''o/r'') 100, FetchTasks board (str ''p1''),
                        FetchIssues (str ''o/s'') 100, FetchTasks board (str ''p2'')]\<rparr>"
proof -
  have 1: "\<not> shutdown_requested start" by simp
  have 2: "\<forall>k. \<not> signal busy_world k" by simp
  have 3: "\<forall>k cmd. gh_run busy_world k cmd \<noteq> RunOSError" by simp
  have 4: "\<forall>k url pid. http_get busy_world k url pid \<noteq> GetResponse 200 NonObject" by simp
  have busy: "run_sync (Suc 0) busy_world board two_mappings True start =
     Returned \<lparr>shutdown_requested = False,
               trace = [FetchIssues (str ''o/r'') 100, FetchTasks board (str ''p1''),
                        post_of board (str ''p1'') blank_issue,
                        FetchIssues (str ''o/s'') 100, FetchTasks board (str ''p2'')]\<rparr>"
    by code_simp
  have quiet: "run_sync (Suc 0) quiet_world board two_mappings True start =
     Returned \<lparr>shutdown_requested = False,
               trace = [FetchIssues (str ''o/r'') 100, FetchTasks board (str ''p1''),
                        FetchIssues (str ''o/s'') 100, FetchTasks board (str ''p2'')]\<rparr>"
    by code_simp
  from once_runs_one_pass [OF 1 2 3 4, of 0 board two_mappings]
  have "\<exists>passes.
      run_sync (Suc 0) busy_world board two_mappings True start =
        Returned \<lparr>shutdown_requested = False, trace = trace start @ concat passes\<rparr> \<and>
      length passes = length [project1, project2] \<and>
      (\<forall>n<length passes.
         pass_at busy_world board 100 ([project1, project2] ! n)
           (length (trace start) + length (concat (take n passes))) (passes ! n)) \<and>
      (\<forall>n. Sleep n \<notin> set (concat passes))"
    by simp
  with busy quiet show ?thesis by (intro conjI)
qed

text \<open>
  C7 as stated, for every world, fails where a client lets an exception through: when the
  tool cannot be started the first fetch raises, and when the board answers 200 with a
  JSON value that is not an object the fetch of the tasks raises.  \<open>run_sync\<close> ends there,
  before the second mapping.
\<close>

theorem once_raises_counterexample:
  "run_sync (Suc 0) no_gh_world board two_mappings True start =
     Raised OSError
       \<lparr>shutdown_requested = False, trace = [FetchIssues (str ''o/r'') 100]\<rparr> \<and>
   run_sync (Suc 0) array_world board two_mappings True start =
     Raised AttributeError
       \<lparr>shutdown_requested = False,
        trace = [FetchIssues (str ''o/r'') 100, FetchTasks board (str ''p1'')]\<rparr>"
  by code_simp

text \<open>
  C8.  Run \<open>run_sync\<close> from a state with flag \<open>b\<close> for any number of rounds, in any
  world, in either mode, and look at the calls made by the time it returned, raised or was
  still running.  Every fetch of issues, which begins a mapping, and every sleep was
  started with the flag unset at the check before it; every sleep is one second long.
  A round of the service whose pass over the mappings returned with the flag unset goes on
  with \<open>m\<close> sleeps of one second, where \<open>m\<close> is at most the configured interval: no signal
  came with a sleep before the last one, fewer sleeps than the interval are made only
  when a signal came with the last one, and the flag is then set for the next round.  So
  without a signal the sleeps are as many as the interval has seconds.  The sleep loop
  itself makes at most \<open>n\<close> one-second sleeps, none when the flag is set on entry and all
  \<open>n\<close> when no signal arrives.  The loop over the issues of a mapping does not read the
  flag: with the flag set and under any signals it makes the same POSTs and builds the
  same sets.
\<close>

theorem shutdown_flag_checked_before_work:
  "(\<forall>k<length (trace (final (run_sync fuel w vibe_url cfg once
                     \<lparr>shutdown_requested = b, trace = []\<rparr>))).
      starts_work (trace (final (run_sync fuel w vibe_url cfg once
                     \<lparr>shutdown_requested = b, trace = []\<rparr>)) ! k)
      \<longrightarrow> \<not> flag_before w b k) \<and>
   (\<forall>n. Sleep n \<in> set (trace (final (run_sync fuel w vibe_url cfg once
                     \<lparr>shutdown_requested = b, trace = []\<rparr>))) \<longrightarrow> n = 1) \<and>
   (\<not> shutdown_requested st0 \<and>
    sync_projects w vibe_url (case issue_limit cfg of None \<Rightarrow> 100 | Some n \<Rightarrow> n)
      (case projects cfg of None \<Rightarrow> [] | Some ps \<Rightarrow> ps) st0 = Returned st1 \<and>
    \<not> shutdown_requested st1 \<longrightarrow>
    (\<exists>m st2.
       m \<le> nat (case sync_interval_seconds cfg of None \<Rightarrow> 60 | Some n \<Rightarrow> n) \<and>
       trace st2 = trace st1 @ replicate m (Sleep 1) \<and>
       run_sync (Suc fuel) w vibe_url cfg False st0 = run_sync fuel w vibe_url cfg False st2 \<and>
       (\<forall>j. Suc j < m \<longrightarrow> \<not> signal w (length (trace st1) + j)) \<and>
       (m < nat (case sync_interval_seconds cfg of None \<Rightarrow> 60 | Some n \<Rightarrow> n) \<longrightarrow>
          0 < m \<and> signal w (length (trace st1) + (m - 1))) \<and>
       (shutdown_requested st2 \<longleftrightarrow> 0 < m \<and> signal w (length (trace st1) + (m - 1))))) \<and>
   (\<exists>m\<le>n. trace (sleep_loop w n st) = trace st @ replicate m (Sleep 1) \<and>
           (shutdown_requested st \<longrightarrow> m = 0) \<and>
           (\<not> shutdown_requested st \<and> (\<forall>j. \<not> signal w j) \<longrightarrow> m = n)) \<and>
   fst (create_loop (w\<lparr>signal := sg\<rparr>) vibe_url pid issues (sets, st\<lparr>shutdown_requested := True\<rparr>)) =
     fst (create_loop w vibe_url pid issues (sets, st)) \<and>
   trace (snd (create_loop (w\<lparr>signal := sg\<rparr>) vibe_url pid issues
                 (sets, st\<lparr>shutdown_requested := True\<rparr>))) =
     trace (snd (create_loop w vibe_url pid issues (sets, st)))"
proof -
  let ?st' = "final (run_sync fuel w vibe_url cfg once \<lparr>shutdown_requested = b, trace = []\<rparr>)"
  have "checked w b \<lparr>shutdown_requested = b, trace = []\<rparr>"
    by (simp add: checked_def)
  then have "checked w b ?st'"
    unfolding run_sync_def Let_def by (rule sync_loop_checked)
  then have 1: "\<forall>k<length (trace ?st'). starts_work (trace ?st' ! k) \<longrightarrow> \<not> flag_before w b k"
    and 2: "\<forall>n. Sleep n \<in> set (trace ?st') \<longrightarrow> n = 1"
    unfolding checked_def by blast+
  have 3: "fst (create_loop (w\<lparr>signal := sg\<rparr>) vibe_url pid issues
               (sets, st\<lparr>shutdown_requested := True\<rparr>)) =
             fst (create_loop w vibe_url pid issues (sets, st)) \<and>
           trace (snd (create_loop (w\<lparr>signal := sg\<rparr>) vibe_url pid issues
               (sets, st\<lparr>shutdown_requested := True\<rparr>))) =
             trace (snd (create_loop w vibe_url pid issues (sets, st)))"
    by (rule create_loop_blind) simp_all
  have 4: "\<not> shutdown_requested st0 \<and>
    sync_projects w vibe_url (case issue_limit cfg of None \<Rightarrow> 100 | Some n \<Rightarrow> n)
      (case projects cfg of None \<Rightarrow> [] | Some ps \<Rightarrow> ps) st0 = Returned st1 \<and>
    \<not> shutdown_requested st1 \<longrightarrow>
    (\<exists>m st2.
       m \<le> nat (case sync_interval_seconds cfg of None \<Rightarrow> 60 | Some n \<Rightarrow> n) \<and>
       trace st2 = trace st1 @ replicate m (Sleep 1) \<and>
       run_sync (Suc fuel) w vibe_url cfg False st0 = run_sync fuel w vibe_url cfg False st2 \<and>
       (\<forall>j. Suc j < m \<longrightarrow> \<not> signal w (length (trace st1) + j)) \<and>
       (m < nat (case sync_interval_seconds cfg of None \<Rightarrow> 60 | Some n \<Rightarrow> n) \<longrightarrow>
          0 < m \<and> signal w (length (trace st1) + (m - 1))) \<and>
       (shutdown_requested st2 \<longleftrightarrow> 0 < m \<and> signal w (length (trace st1) + (m - 1))))"
    using run_sync_round [of st0 w vibe_url cfg st1 fuel] by blast
  from 1 2 3 4 sleep_loop_trace [of n w st] show ?thesis
    by (intro conjI) blast+
qed

text \<open>
  Two mappings and an interval of three seconds.  With a signal during the first second
  of sleep, that sleep was begun with the flag unset, no second one follows, and the loop
  returns; without a signal the first round ends with three sleeps of one second.
\<close>

theorem shutdown_flag_checked_before_work_witness:
  "run_sync 5 signalled_world board two_mappings False start =
     Returned \<lparr>shutdown_requested = True,
               trace = [FetchIssues (str ''o/r'') 100, FetchTasks board (str ''p1''),
                        FetchIssues (str ''o/s'') 100, FetchTasks board (str ''p2''),
                        Sleep 1]\<rparr> \<and>
   \<not> flag_before signalled_world False 4 \<and>
   flag_before signalled_world False 5 \<and>
   (\<exists>st2. trace st2 = [FetchIssues (str ''o/r'') 100, FetchTasks board (str ''p1''),
                       FetchIssues (str ''o/s'') 100, FetchTasks board (str ''p2''),
                       Sleep 1] \<and>
          shutdown_requested st2 \<and>
          run_sync 2 signalled_world board two_mappings False start =
            run_sync 1 signalled_world board two_mappings False st2) \<and>
   run_sync 1 quiet_world board two_mappings False start =
     Running \<lparr>shutdown_requested = False,
               trace = [FetchIssues (str ''o/r'') 100, FetchTasks board (str ''p1''),
                        FetchIssues (str ''o/s'') 100, FetchTasks board (str ''p2''),
                        Sleep 1, Sleep 1, Sleep 1]\<rparr> \<and>
   trace (sleep_loop quiet_world 3 start) = [Sleep 1, Sleep 1, Sleep 1]"
proof -
  let ?st' = "final (run_sync 5 signalled_world board two_mappings False
      \<lparr>shutdown_requested = False, trace = []\<rparr>)"
  let ?fetches = "[FetchIssues (str ''o/r'') 100, FetchTasks board (str ''p1''),
      FetchIssues (str ''o/s'') 100, FetchTasks board (str ''p2'')]"
  let ?st1 = "\<lparr>shutdown_requested = False, trace = ?fetches\<rparr>"
  have run: "run_sync 5 signalled_world board two_mappings False start =
     Returned \<lparr>shutdown_requested = True,
               trace = [FetchIssues (str ''o/r'') 100, FetchTasks board (str ''p1''),
                        FetchIssues (str ''o/s'') 100, FetchTasks board (str ''p2''),
                        Sleep 1]\<rparr>"
    by code_simp
  have "\<forall>k<length (trace ?st'). starts_work (trace ?st' ! k)
      \<longrightarrow> \<not> flag_before signalled_world False k"
    by (rule conjunct1 [OF shutdown_flag_checked_before_work])
  moreover have "4 < length (trace ?st')" and "starts_work (trace ?st' ! 4)"
    by (simp_all add: run)
  ultimately have a: "\<not> flag_before signalled_world False 4"
    by blast
  have b: "flag_before signalled_world False 5"
    by (auto intro: exI [of _ 4])
  have c: "trace (sleep_loop quiet_world 3 start) = [Sleep 1, Sleep 1, Sleep 1]"
    by code_simp
  have d: "run_sync 1 quiet_world board two_mappings False start =
     Running \<lparr>shutdown_requested = False,
               trace = [FetchIssues (str ''o/r'') 100, FetchTasks board (str ''p1''),
                        FetchIssues (str ''o/s'') 100, FetchTasks board (str ''p2''),
                        Sleep 1, Sleep 1, Sleep 1]\<rparr>"
    by code_simp
  have pass: "sync_projects signalled_world board
      (case issue_limit two_mappings of None \<Rightarrow> 100 | Some n \<Rightarrow> n)
      (case projects two_mappings of None \<Rightarrow> [] | Some ps \<Rightarrow> ps) start = Returned ?st1"
    by code_simp
  have hyp: "\<not> shutdown_requested start \<and>
      sync_projects signalled_world board
        (case issue_limit two_mappings of None \<Rightarrow> 100 | Some n \<Rightarrow> n)
        (case projects two_mappings of None \<Rightarrow> [] | Some ps \<Rightarrow> ps) start = Returned ?st1 \<and>
      \<not> shutdown_requested ?st1"
    using pass by simp
  from shutdown_flag_checked_before_work [where w = signalled_world and cfg = two_mappings
      and vibe_url = board and ?st0.0 = start and ?st1.0 = ?st1 and fuel = 1] hyp
  obtain m st2 where
    tr: "trace st2 = trace ?st1 @ replicate m (Sleep 1)"
    and eq: "run_sync (Suc 1) signalled_world board two_mappings False start =
        run_sync 1 signalled_world board two_mappings False st2"
    and quiet: "\<forall>j. Suc j < m \<longrightarrow> \<not> signal signalled_world (length (trace ?st1) + j)"
    and early: "m < nat (case sync_interval_seconds two_mappings of None \<Rightarrow> 60 | Some n \<Rightarrow> n)
        \<longrightarrow> 0 < m \<and> signal signalled_world (length (trace ?st1) + (m - 1))"
    and flag: "shutdown_requested st2 \<longleftrightarrow>
        0 < m \<and> signal signalled_world (length (trace ?st1) + (m - 1))"
    by blast
  have "\<not> Suc 0 < m"
    using quiet by auto
  moreover have "0 < m"
    using early calculation by auto
  ultimately have m: "m = 1" by simp
  have "trace st2 = ?fetches @ [Sleep 1]" and "shutdown_requested st2"
    using tr flag by (simp_all add: m)
  then have e: "\<exists>st2. trace st2 = [FetchIssues (str ''o/r'') 100, FetchTasks board (str ''p1''),
                       FetchIssues (str ''o/s'') 100, FetchTasks board (str ''p2''),
                       Sleep 1] \<and>
          shutdown_requested st2 \<and>
          run_sync 2 signalled_world board two_mappings False start =
            run_sync 1 signalled_world board two_mappings False st2"
    using eq by (intro exI [of _ st2]) (simp add: numeral_2_eq_2)
  from run a b c d e show ?thesis by blast
qed

section \<open>The clients swallow the failures they name\<close>

text \<open>
  C4, as the code has it.  \<open>fetch_github_issues\<close> returns the empty list, and raises
  nothing, when the tool exits with a failure status, when it runs into the timeout of 60
  seconds and when its output does not parse, for every repository and limit.  The older
  copy in \<open>main.py\<close>, which sets no timeout, does the same on a failure status and on
  output that does not parse.  In \<open>run_sync\<close> the mapping then goes on as one without
  issues: the tasks are fetched, nothing is posted, and the pass returns.
\<close>

theorem fetch_github_issues_failure_empty:
  "(run (gh_cmd repo limit) \<in> {CalledProcessError, TimeoutExpired, CompletedProcess None}
      \<longrightarrow> fetch_github_issues run repo limit = Inr []) \<and>
   (run (main_gh_cmd repo) \<in> {CalledProcessError, CompletedProcess None}
      \<longrightarrow> main_fetch_github_issues run repo = Inr []) \<and>
   (gh_run w (length (trace st)) (gh_cmd (github_repo project) limit)
        \<in> {CalledProcessError, TimeoutExpired, CompletedProcess None} \<and>
    fetch_vibe_tasks (http_get w (Suc (length (trace st)))) vibe_url (vibe_project_id project)
        = Inr vibe_tasks
      \<longrightarrow> sync_project w vibe_url limit project st =
            Returned (act w (FetchTasks vibe_url (vibe_project_id project))
                       (act w (FetchIssues (github_repo project) limit) st)))"
proof (intro conjI impI)
  assume "run (gh_cmd repo limit) \<in> {CalledProcessError, TimeoutExpired, CompletedProcess None}"
  then show "fetch_github_issues run repo limit = Inr []"
    by (auto simp: fetch_github_issues_def)
next
  assume "run (main_gh_cmd repo) \<in> {CalledProcessError, CompletedProcess None}"
  then show "main_fetch_github_issues run repo = Inr []"
    by (auto simp: main_fetch_github_issues_def)
next
  assume h: "gh_run w (length (trace st)) (gh_cmd (github_repo project) limit)
        \<in> {CalledProcessError, TimeoutExpired, CompletedProcess None} \<and>
    fetch_vibe_tasks (http_get w (Suc (length (trace st)))) vibe_url (vibe_project_id project)
        = Inr vibe_tasks"
  then have "fetch_github_issues (gh_run w (length (trace st))) (github_repo project) limit
      = Inr []"
    by (auto simp: fetch_github_issues_def)
  with h show "sync_project w vibe_url limit project st =
            Returned (act w (FetchTasks vibe_url (vibe_project_id project))
                       (act w (FetchIssues (github_repo project) limit) st))"
    by (simp add: sync_project_def Let_def act_def)
qed

theorem fetch_github_issues_failure_empty_witness:
  "fetch_github_issues (\<lambda>cmd. CalledProcessError) (str ''o/r'') 100 = Inr [] \<and>
   fetch_github_issues (\<lambda>cmd. TimeoutExpired) (str ''o/r'') 100 = Inr [] \<and>
   fetch_github_issues (\<lambda>cmd. CompletedProcess None) (str ''o/r'') 100 = Inr [] \<and>
   main_fetch_github_issues (\<lambda>cmd. CalledProcessError) (str ''o/r'') = Inr [] \<and>
   main_fetch_github_issues (\<lambda>cmd. CompletedProcess None) (str ''o/r'') = Inr [] \<and>
   sync_project gh_fails_world board 100 project1 start =
     Returned \<lparr>shutdown_requested = False,
               trace = [FetchIssues (str ''o/r'') 100, FetchTasks board (str ''p1'')]\<rparr>"
proof -
  have t: "fetch_vibe_tasks (http_get gh_fails_world (Suc (length (trace start)))) board
      (vibe_project_id project1) = Inr [task5]"
    by (simp add: fetch_vibe_tasks_def)
  have a: "act gh_fails_world (FetchTasks board (vibe_project_id project1))
        (act gh_fails_world (FetchIssues (github_repo project1) 100) start) =
      \<lparr>shutdown_requested = False,
       trace = [FetchIssues (str ''o/r'') 100, FetchTasks board (str ''p1'')]\<rparr>"
    by (simp add: act_def)
  from fetch_github_issues_failure_empty [where run = "\<lambda>cmd. CalledProcessError"
      and repo = "str ''o/r''" and limit = 100 and w = gh_fails_world and st = start
      and project = project1 and vibe_url = board and vibe_tasks = "[task5]"]
    fetch_github_issues_failure_empty [where run = "\<lambda>cmd. TimeoutExpired"
      and repo = "str ''o/r''" and limit = 100 and w = gh_fails_world and st = start
      and project = project1 and vibe_url = board and vibe_tasks = "[task5]"]
    fetch_github_issues_failure_empty [where run = "\<lambda>cmd. CompletedProcess None"
      and repo = "str ''o/r''" and limit = 100 and w = gh_fails_world and st = start
      and project = project1 and vibe_url = board and vibe_tasks = "[task5]"]
    t a
  show ?thesis by simp
qed

text \<open>
  C4 as stated, for every failure of the tool, fails when the tool cannot be started:
  \<open>subprocess.run\<close> raises an \<open>OSError\<close>, which none of the handlers names, and the
  mapping ends with that exception.  Nor does the copy in \<open>main.py\<close> name a handler for
  a timeout.
\<close>

theorem tool_not_started_counterexample:
  "fetch_github_issues (\<lambda>cmd. RunOSError) (str ''o/r'') 100 = Inl OSError \<and>
   sync_project no_gh_world board 100 project1 start =
     Raised OSError
       \<lparr>shutdown_requested = False, trace = [FetchIssues (str ''o/r'') 100]\<rparr> \<and>
   main_fetch_github_issues (\<lambda>cmd. TimeoutExpired) (str ''o/r'') = Inl TimeoutExpiredError"
  by code_simp

text \<open>
  C6.  \<open>create_vibe_task\<close> returns \<open>True\<close> exactly when the POST was answered with status
  200 or 201; a timeout and any other request error give \<open>False\<close>.  The function has no
  other way out, so nothing is raised.  The copy in \<open>main.py\<close> behaves the same.
\<close>

theorem create_vibe_task_true_iff:
  "(create_vibe_task post api_url project_id title content \<longleftrightarrow>
      (\<exists>status. post (api_url @ str ''/api/tasks'')
                   \<lparr>payload_title = title, payload_project_id = project_id,
                    payload_content = content\<rparr> = PostResponse status \<and>
                (status = 200 \<or> status = 201))) \<and>
   (main_create_vibe_task post api_url project_id title content \<longleftrightarrow>
      (\<exists>status. post (api_url @ str ''/api/tasks'')
                   \<lparr>payload_title = title, payload_project_id = project_id,
                    payload_content = content\<rparr> = PostResponse status \<and>
                (status = 200 \<or> status = 201))) \<and>
   create_vibe_task (\<lambda>url p. PostTimeout) api_url project_id title content = False \<and>
   create_vibe_task (\<lambda>url p. PostRequestException) api_url project_id title content = False"
  by (auto simp: create_vibe_task_def main_create_vibe_task_def split: post_result.splits)

text \<open>
  C5.  \<open>fetch_vibe_tasks\<close> returns the empty list, and raises nothing, when the GET
  times out, fails with another request error, is answered with a status other than 200,
  or is answered with status 200 and an envelope whose \<open>success\<close> is false, for every API
  URL and project.  When the board answers with status 500, the mapping goes on: its
  issues are handled against two empty sets, of which no issue is a duplicate.
\<close>

theorem fetch_vibe_tasks_failure_empty:
  "(get (api_url @ str ''/api/tasks'') project_id = GetTimeout \<or>
    get (api_url @ str ''/api/tasks'') project_id = GetRequestException \<or>
    (\<exists>status data. get (api_url @ str ''/api/tasks'') project_id = GetResponse status data \<and>
                   status \<noteq> 200) \<or>
    (\<exists>tasks. get (api_url @ str ''/api/tasks'') project_id = GetResponse 200 (Envelope False tasks))
    \<longrightarrow> fetch_vibe_tasks get api_url project_id = Inr []) \<and>
   (fetch_github_issues (gh_run w (length (trace st))) (github_repo project) limit = Inr gh_issues \<and>
    http_get w (Suc (length (trace st))) (vibe_url @ str ''/api/tasks'') (vibe_project_id project)
      = GetResponse 500 data
    \<longrightarrow> sync_project w vibe_url limit project st =
          Returned (snd (create_loop w vibe_url (vibe_project_id project) gh_issues
            (([], []),
             act w (FetchTasks vibe_url (vibe_project_id project))
               (act w (FetchIssues (github_repo project) limit) st)))) \<and>
        (\<forall>issue. \<not> sync_is_duplicate ([], []) issue))"
proof (intro conjI impI)
  assume "get (api_url @ str ''/api/tasks'') project_id = GetTimeout \<or>
    get (api_url @ str ''/api/tasks'') project_id = GetRequestException \<or>
    (\<exists>status data. get (api_url @ str ''/api/tasks'') project_id = GetResponse status data \<and>
                   status \<noteq> 200) \<or>
    (\<exists>tasks. get (api_url @ str ''/api/tasks'') project_id = GetResponse 200 (Envelope False tasks))"
  then show "fetch_vibe_tasks get api_url project_id = Inr []"
    by (auto simp: fetch_vibe_tasks_def)
next
  assume h: "fetch_github_issues (gh_run w (length (trace st))) (github_repo project) limit
        = Inr gh_issues \<and>
    http_get w (Suc (length (trace st))) (vibe_url @ str ''/api/tasks'') (vibe_project_id project)
      = GetResponse 500 data"
  then have "fetch_vibe_tasks (http_get w (Suc (length (trace st)))) vibe_url
      (vibe_project_id project) = Inr []"
    by (simp add: fetch_vibe_tasks_def)
  with h show "sync_project w vibe_url limit project st =
          Returned (snd (create_loop w vibe_url (vibe_project_id project) gh_issues
            (([], []),
             act w (FetchTasks vibe_url (vibe_project_id project))
               (act w (FetchIssues (github_repo project) limit) st))))"
    by (simp add: sync_project_def Let_def act_def sync_build_sets_def)
next
  show "\<forall>issue. \<not> sync_is_duplicate ([], []) issue"
    by (simp add: sync_is_duplicate_def)
qed

text \<open>
  The board answers 500 and the tool lists issue 5: the task for it is posted.
\<close>

theorem fetch_vibe_tasks_failure_empty_witness:
  "fetch_vibe_tasks (http_get failing_board 1) board (str ''p1'') = Inr [] \<and>
   sync_project failing_board board 100 project1 start =
     Returned \<lparr>shutdown_requested = False,
               trace = [FetchIssues (str ''o/r'') 100, FetchTasks board (str ''p1''),
                        CreateTask board (str ''p1'') (str ''fix bug'') (new_task_content issue5)]\<rparr>"
proof -
  have g: "http_get failing_board 1 (board @ str ''/api/tasks'') (str ''p1'') = GetTimeout \<or>
    http_get failing_board 1 (board @ str ''/api/tasks'') (str ''p1'') = GetRequestException \<or>
    (\<exists>status data. http_get failing_board 1 (board @ str ''/api/tasks'') (str ''p1'')
        = GetResponse status data \<and> status \<noteq> 200) \<or>
    (\<exists>tasks. http_get failing_board 1 (board @ str ''/api/tasks'') (str ''p1'')
        = GetResponse 200 (Envelope False tasks))"
    by simp
  have i: "fetch_github_issues (gh_run failing_board (length (trace start)))
      (github_repo project1) 100 = Inr [issue5] \<and>
    http_get failing_board (Suc (length (trace start))) (board @ str ''/api/tasks'')
      (vibe_project_id project1) = GetResponse 500 NonObject"
    by (simp add: fetch_github_issues_def)
  have run: "snd (create_loop failing_board board (str ''p1'') [issue5]
            (([], []),
             act failing_board (FetchTasks board (str ''p1''))
               (act failing_board (FetchIssues (str ''o/r'') 100) start))) =
     \<lparr>shutdown_requested = False,
               trace = [FetchIssues (str ''o/r'') 100, FetchTasks board (str ''p1''),
                        CreateTask board (str ''p1'') (str ''fix bug'') (new_task_content issue5)]\<rparr>"
    by code_simp
  from fetch_vibe_tasks_failure_empty [where get = "http_get failing_board 1" and api_url = board
      and project_id = "str ''p1''" and w = failing_board and st = start and project = project1
      and limit = 100 and gh_issues = "[issue5]" and vibe_url = board and data = NonObject]
    g i run
  show ?thesis by simp
qed

end
